theory Spec2Isabelle
  imports Complex_Main "HOL-Library.AList" "HOL-Library.Char_ord" "HOL-Library.List_Lexorder"
begin

section \<open>Delivery queue (bot\_handler.py)\<close>

subsection \<open>Constants and data\<close>

definition SEND_FILE_TRIES_MAX :: nat where
  "SEND_FILE_TRIES_MAX = 3"

definition DELAY_BETWEEN_RETRIES :: real where
  "DELAY_BETWEEN_RETRIES = 3"

definition DELAY_BETWEEN_USERS :: real where
  "DELAY_BETWEEN_USERS = 1"

definition VIDEO_ID_LENGTH :: nat where
  "VIDEO_ID_LENGTH = 12"

text \<open>
  The video-message database is the Python dict loaded from the JSON file: video id to
  \<open>{"path": ..., "messages": [{"chat_id": ..., "message_id": ...}, ...]}\<close>. A Python dict keeps
  its keys unique and in insertion order, so it is an association list handled through
  \<open>map_of\<close> and \<open>AList.update\<close>.
\<close>

record video_record =
  path :: string
  messages :: "(int \<times> int) list"

type_synonym db = "(string \<times> video_record) list"

text \<open>
  What a call of \<open>send_video\<close> or \<open>send_message\<close> does: it returns a message with some
  \<open>message_id\<close>, raises exactly \<open>telegram.error.NetworkError\<close> (the source compares the
  class with \<open>==\<close>, so subclasses count as other errors), or raises anything else.
\<close>

datatype send_outcome = Sent int | NetworkError | OtherError

text \<open>
  The calls the sending thread makes on its collaborators, in the order it makes them.
  \<open>WriteVideoMessages d\<close> is the call \<open>_write_video_messages(d)\<close>, which dumps the whole
  database \<open>d\<close> to the file; the function logs an I/O error and raises nothing, so the
  thread goes on in the same way whether or not the file was written. \<open>Wait\<close> is a call of
  \<open>_sending_thread_wait\<close>; logging is left out but for the line "retries exceeded".
\<close>

datatype event =
    SendVideo int string string
  | SendMessage int string
  | WriteVideoMessages db
  | Wait real
  | LogRetriesExceeded

text \<open>
  The environment of the sending thread: the outcome of the n-th send call and the
  content returned by the n-th call of \<open>_load_video_messages\<close> (\<open>[]\<close> when the file cannot be read).
\<close>

record bot_world =
  send_result :: "nat \<Rightarrow> send_outcome"
  load_result :: "nat \<Rightarrow> db"

record bot_config =
  users_whitelist_video :: "int list"
  users_whitelist_text :: "int list"

text \<open>
  The state of the sending thread. \<open>_sending_thread_running\<close> is cleared by another thread
  (\<open>_stop_sending_thread\<close>) and never set again while the thread lives, so it is the number
  \<open>running_reads\<close> of reads at a loop head that still answer True; every later read
  answers False. \<open>draws\<close> are the future values of the random source.
\<close>

record sender =
  running_reads :: nat
  sends_done :: nat
  loads_done :: nat
  draws :: "nat list"
  trace :: "event list"

datatype attempt = Success | Network | Other

subsection \<open>\_send\_text\_or\_video\<close>

definition callback_data :: "string option \<Rightarrow> string" where
  "callback_data video_id = ''ask_'' @ (case video_id of None \<Rightarrow> ''None'' | Some v \<Rightarrow> v)"

text \<open>
  \<open>video_msgs[video_id]["messages"].append({"chat_id": user_id, "message_id": message_id})\<close>;
  \<open>None\<close> is the KeyError of a missing id, which the source catches and logs.
\<close>

definition append_message :: "string option \<Rightarrow> int \<Rightarrow> int \<Rightarrow> db \<Rightarrow> db option" where
  "append_message video_id user_id message_id video_msgs =
     (case video_id of
        None \<Rightarrow> None
      | Some v \<Rightarrow>
          (case map_of video_msgs v of
             None \<Rightarrow> None
           | Some r \<Rightarrow>
               Some (AList.update v (r\<lparr>messages := messages r @ [(user_id, message_id)]\<rparr>) video_msgs)))"

text \<open>The body of the \<open>try\<close> block of one pass of the retry loop, with the class of its result.\<close>

definition try_send ::
  "bot_world \<Rightarrow> bool \<Rightarrow> int \<Rightarrow> string \<Rightarrow> string option \<Rightarrow> db \<Rightarrow> sender \<Rightarrow> attempt \<times> db \<times> sender" where
  "try_send w video user_id data_to_send video_id video_msgs s =
     (let s1 = s\<lparr>sends_done := Suc (sends_done s),
                 trace := trace s @ [if video then SendVideo user_id data_to_send (callback_data video_id)
                                     else SendMessage user_id data_to_send]\<rparr>
      in case send_result w (sends_done s) of
           NetworkError \<Rightarrow> (Network, video_msgs, s1)
         | OtherError \<Rightarrow> (Other, video_msgs, s1)
         | Sent message_id \<Rightarrow>
             if video then
               (if message_id \<ge> 0 then
                  (case append_message video_id user_id message_id video_msgs of
                     None \<Rightarrow> (Success, video_msgs, s1)
                   | Some msgs' \<Rightarrow> (Success, msgs', s1\<lparr>trace := trace s1 @ [WriteVideoMessages msgs']\<rparr>))
                else (Other, video_msgs, s1))
             else (if message_id \<ge> 0 then (Success, video_msgs, s1) else (Other, video_msgs, s1)))"

text \<open>The \<open>except\<close> block: a NetworkError sets the counter to 1, any other error adds 1.\<close>

definition tries_after :: "attempt \<Rightarrow> nat \<Rightarrow> nat" where
  "tries_after r tries_counter =
     (case r of Network \<Rightarrow> 1 | Other \<Rightarrow> tries_counter + 1 | Success \<Rightarrow> tries_counter)"

text \<open>
  The loop \<open>while self._sending_thread_running\<close> of \<open>_send_text_or_video\<close>, from the value
  \<open>tries_counter\<close> of the counter. It returns the final counter, the database and the state.
\<close>

function send_retry_loop ::
  "bot_world \<Rightarrow> bool \<Rightarrow> int \<Rightarrow> string \<Rightarrow> string option \<Rightarrow> nat \<Rightarrow> db \<Rightarrow> sender \<Rightarrow> nat \<times> db \<times> sender" where
  "send_retry_loop w video user_id data_to_send video_id tries_counter video_msgs s =
     (if running_reads s = 0 then (tries_counter, video_msgs, s)
      else
        (case try_send w video user_id data_to_send video_id video_msgs
                (s\<lparr>running_reads := running_reads s - 1\<rparr>) of
           (r, msgs', s') \<Rightarrow>
             if r = Success then (tries_counter, msgs', s')
             else if tries_after r tries_counter \<ge> SEND_FILE_TRIES_MAX
               then (tries_after r tries_counter, msgs', s'\<lparr>trace := trace s' @ [LogRetriesExceeded]\<rparr>)
             else send_retry_loop w video user_id data_to_send video_id (tries_after r tries_counter) msgs'
                    (s'\<lparr>trace := trace s' @ [Wait DELAY_BETWEEN_RETRIES]\<rparr>)))"
  by pat_completeness auto
termination
  by (relation "measure (\<lambda>(w, video, user_id, data_to_send, video_id, tries_counter, video_msgs, s). running_reads s)")
     (auto simp: try_send_def Let_def split: send_outcome.splits if_splits option.splits)

declare send_retry_loop.simps [simp del]

definition send_text_or_video ::
  "bot_world \<Rightarrow> bool \<Rightarrow> int \<Rightarrow> string \<Rightarrow> string option \<Rightarrow> db \<Rightarrow> sender \<Rightarrow> db \<times> sender" where
  "send_text_or_video w video user_id data_to_send video_id video_msgs s =
     (case send_retry_loop w video user_id data_to_send video_id 0 video_msgs s of
        (tries_counter, msgs', s') \<Rightarrow> (msgs', s'\<lparr>trace := trace s' @ [Wait DELAY_BETWEEN_USERS]\<rparr>))"

subsection \<open>\_sending\_thread\_loop\<close>

text \<open>\<open>ascii_uppercase + ascii_lowercase + digits\<close>\<close>

definition alphabet :: string where
  "alphabet = ''ABCDEFGHIJKLMNOPQRSTUVWXYZabcdefghijklmnopqrstuvwxyz0123456789''"

text \<open>
  \<open>"".join(choices(alphabet, k=...))\<close>: every character is \<open>alphabet[i]\<close> for a random index
  \<open>i\<close> below the length of the alphabet; the index is the raw draw reduced modulo that length.
\<close>

definition choices :: "nat list \<Rightarrow> string" where
  "choices rs = map (\<lambda>r. alphabet ! (r mod length alphabet)) rs"

text \<open>
  The loop \<open>while not video_id or video_id in messages\<close>. Every pass takes
  \<open>VIDEO_ID_LENGTH\<close> draws. The loop has no bound: \<open>None\<close> says that the draws given were
  used up before a free id came.
\<close>

function gen_video_id :: "db \<Rightarrow> nat list \<Rightarrow> (string \<times> nat list) option" where
  "gen_video_id msgs ds =
     (if length ds < VIDEO_ID_LENGTH then None
      else
        (let video_id = choices (take VIDEO_ID_LENGTH ds) in
         if video_id = [] \<or> map_of msgs video_id \<noteq> None
         then gen_video_id msgs (drop VIDEO_ID_LENGTH ds)
         else Some (video_id, drop VIDEO_ID_LENGTH ds)))"
  by pat_completeness auto
termination
  by (relation "measure (\<lambda>(msgs, ds). length ds)") (auto simp: VIDEO_ID_LENGTH_def)

declare gen_video_id.simps [simp del]

definition startswith :: "string \<Rightarrow> string \<Rightarrow> bool" where
  "startswith s p = (take (length p) s = p)"

text \<open>
  The loops \<open>for user_id in self._config[...]\<close>, which stop when the running flag is read
  False. The dict \<open>messages\<close> is shared with \<open>_send_text_or_video\<close>, which changes it in place;
  here it is passed on from one recipient to the next.
\<close>

fun send_to_users ::
  "bot_world \<Rightarrow> bool \<Rightarrow> int list \<Rightarrow> string \<Rightarrow> string option \<Rightarrow> db \<Rightarrow> sender \<Rightarrow> db \<times> sender" where
  "send_to_users w video [] data_to_send video_id msgs s = (msgs, s)"
| "send_to_users w video (user_id # users) data_to_send video_id msgs s =
     (if running_reads s = 0 then (msgs, s)
      else
        (case send_text_or_video w video user_id data_to_send video_id msgs
                (s\<lparr>running_reads := running_reads s - 1\<rparr>) of
           (msgs', s') \<Rightarrow> send_to_users w video users data_to_send video_id msgs' s'))"

text \<open>
  The branch \<open>video_...\<close> of the thread loop, for the file path \<open>data_to_send\<close> (prefix already
  removed) and the database \<open>msgs\<close> just loaded.
\<close>

definition process_video ::
  "bot_config \<Rightarrow> bot_world \<Rightarrow> string \<Rightarrow> db \<Rightarrow> sender \<Rightarrow> (db \<times> sender) option" where
  "process_video cfg w data_to_send msgs s =
     (case gen_video_id msgs (draws s) of
        None \<Rightarrow> None
      | Some (video_id, ds) \<Rightarrow>
          (let msgs1 = AList.update video_id \<lparr>path = data_to_send, messages = []\<rparr> msgs;
               s1 = s\<lparr>draws := ds, trace := trace s @ [WriteVideoMessages msgs1]\<rparr>
           in Some (send_to_users w True (users_whitelist_video cfg) data_to_send (Some video_id) msgs1 s1)))"

text \<open>The branch \<open>text_...\<close>.\<close>

definition process_text ::
  "bot_config \<Rightarrow> bot_world \<Rightarrow> string \<Rightarrow> db \<Rightarrow> sender \<Rightarrow> db \<times> sender" where
  "process_text cfg w data_to_send msgs s =
     send_to_users w False (users_whitelist_text cfg) data_to_send None msgs s"

text \<open>
  How a run of the thread loop ends: the \<open>while\<close> loop is left (flag False, or the sentinel
  \<open>None\<close> was taken) and "loop finished" is logged; the function returns from the \<open>else\<close>
  branch; the thread blocks in \<open>queue.get\<close> on the empty queue; or the id loop is still running
  when the draws end.
\<close>

datatype thread_end = LoopFinished | Returned | BlockedOnQueue | GeneratingId

text \<open>
  \<open>_sending_thread_loop\<close> on the items that are or will be put in the queue, in order. It
  returns how the run ends, the items never taken from the queue, and the state.
\<close>

fun sending_thread_loop ::
  "bot_config \<Rightarrow> bot_world \<Rightarrow> string option list \<Rightarrow> sender
     \<Rightarrow> thread_end \<times> string option list \<times> sender" where
  "sending_thread_loop cfg w [] s =
     (if running_reads s = 0 then (LoopFinished, [], s)
      else (BlockedOnQueue, [], s\<lparr>running_reads := running_reads s - 1\<rparr>))"
| "sending_thread_loop cfg w (item # q) s =
     (if running_reads s = 0 then (LoopFinished, item # q, s)
      else
        (case item of
           None \<Rightarrow> (LoopFinished, q, s\<lparr>running_reads := running_reads s - 1\<rparr>)
         | Some data_to_send \<Rightarrow>
             (let msgs = load_result w (loads_done s);
                  s1 = s\<lparr>running_reads := running_reads s - 1, loads_done := Suc (loads_done s)\<rparr>
              in if startswith data_to_send ''video_'' then
                   (case process_video cfg w (drop 6 data_to_send) msgs s1 of
                      None \<Rightarrow> (GeneratingId, q, s1)
                    | Some (msgs', s2) \<Rightarrow> sending_thread_loop cfg w q s2)
                 else if startswith data_to_send ''text_'' then
                   (case process_text cfg w (drop 5 data_to_send) msgs s1 of
                      (msgs', s2) \<Rightarrow> sending_thread_loop cfg w q s2)
                 else (Returned, q, s1))))"

text \<open>
  C7 in the words of the spec, as a check of a trace of a Video job for the id \<open>v\<close>: the
  check walks the events with the index of the next send call and the database as it is
  in memory. After a \<open>send_video\<close> to \<open>u\<close> that returned a message id \<open>m \<ge> 0\<close>, the next
  event must be the write of the whole database with \<open>(u, m)\<close> appended to the record of
  \<open>v\<close>; no other write is allowed. The result is the index and database at the end.
\<close>

fun persisted_after_each_send ::
  "bot_world \<Rightarrow> string \<Rightarrow> nat \<times> db \<Rightarrow> event list \<Rightarrow> (nat \<times> db) option" where
  "persisted_after_each_send w v (n, d) [] = Some (n, d)"
| "persisted_after_each_send w v (n, d) (SendVideo u p c # tr) =
     (case send_result w n of
        Sent m \<Rightarrow>
          if m \<ge> 0 then
            (case tr of
               WriteVideoMessages d' # tr' \<Rightarrow>
                 if append_message (Some v) u m d = Some d'
                 then persisted_after_each_send w v (Suc n, d') tr' else None
             | _ \<Rightarrow> None)
          else persisted_after_each_send w v (Suc n, d) tr
      | _ \<Rightarrow> persisted_after_each_send w v (Suc n, d) tr)"
| "persisted_after_each_send w v (n, d) (SendMessage u t # tr) =
     persisted_after_each_send w v (Suc n, d) tr"
| "persisted_after_each_send w v (n, d) (WriteVideoMessages d' # tr) = None"
| "persisted_after_each_send w v (n, d) (Wait x # tr) = persisted_after_each_send w v (n, d) tr"
| "persisted_after_each_send w v (n, d) (LogRetriesExceeded # tr) =
     persisted_after_each_send w v (n, d) tr"

text \<open>The candidate id of pass \<open>k\<close> of the id loop.\<close>

definition candidate :: "nat list \<Rightarrow> nat \<Rightarrow> string" where
  "candidate ds k = choices (take VIDEO_ID_LENGTH (drop (k * VIDEO_ID_LENGTH) ds))"

text \<open>
  C1 in the words of the claim. \<open>delivered\<close> says that a send call gave a message with a
  valid id. \<open>next_counter\<close> is the retry counter after one more send call: a NetworkError
  sets it to 1, any other failure (an exception of another class, or a negative message id)
  adds 1, a delivery leaves it. \<open>counter_after w a c k\<close> is the counter after the \<open>k\<close> send
  calls number \<open>a, a + 1, ...\<close>, starting from \<open>c\<close>.
\<close>

definition delivered :: "send_outcome \<Rightarrow> bool" where
  "delivered out = (case out of Sent message_id \<Rightarrow> message_id \<ge> 0 | NetworkError \<Rightarrow> False | OtherError \<Rightarrow> False)"

definition next_counter :: "send_outcome \<Rightarrow> nat \<Rightarrow> nat" where
  "next_counter out c =
     (case out of
        NetworkError \<Rightarrow> 1
      | OtherError \<Rightarrow> c + 1
      | Sent message_id \<Rightarrow> if message_id \<ge> 0 then c else c + 1)"

fun counter_after :: "bot_world \<Rightarrow> nat \<Rightarrow> nat \<Rightarrow> nat \<Rightarrow> nat" where
  "counter_after w a c 0 = c"
| "counter_after w a c (Suc k) = counter_after w (Suc a) (next_counter (send_result w a) c) k"

text \<open>
  The number of send calls with index in \<open>[a, b)\<close> that raise NetworkError.
\<close>

definition network_errors :: "bot_world \<Rightarrow> nat \<Rightarrow> nat \<Rightarrow> nat" where
  "network_errors w a b = length (filter (\<lambda>i. send_result w i = NetworkError) [a..<b])"

text \<open>Concrete environments used to run the model.\<close>

definition flaky_world :: bot_world where
  "flaky_world =
     \<lparr>send_result = (\<lambda>n. if n < 4 then NetworkError else Sent 1), load_result = (\<lambda>n. [])\<rparr>"

definition failing_world :: bot_world where
  "failing_world =
     \<lparr>send_result = (\<lambda>n. if n = 1 then NetworkError else OtherError), load_result = (\<lambda>n. [])\<rparr>"

definition fresh_sender :: sender where
  "fresh_sender = \<lparr>running_reads = 10, sends_done = 0, loads_done = 0, draws = [], trace = []\<rparr>"

definition example_db :: db where
  "example_db = [(''AAAAAAAAAAAA'', \<lparr>path = ''/v/a.mp4'', messages = [(11, 5)]\<rparr>)]"

definition example_config :: bot_config where
  "example_config = \<lparr>users_whitelist_video = [11, 22], users_whitelist_text = [11]\<rparr>"

definition example_world :: bot_world where
  "example_world =
     \<lparr>send_result = (\<lambda>n. if n = 0 then OtherError else Sent (100 + int n)),
      load_result = (\<lambda>n. example_db)\<rparr>"

definition example_sender :: sender where
  "example_sender =
     \<lparr>running_reads = 20, sends_done = 0, loads_done = 0,
      draws = [0, 0, 0, 0, 0, 0, 0, 0, 0, 0, 0, 0, 1, 1, 1, 1, 1, 1, 1, 1, 1, 1, 1, 1], trace = []\<rparr>"

section \<open>Recorder (recorder.py)\<close>

definition START_ATTEMPTS :: nat where
  "START_ATTEMPTS = 3"

text \<open>
  The fields of \<open>Recorder\<close>. \<open>has_process\<close> says that \<open>self._process\<close> is not \<open>None\<close>.
  \<open>rtrace\<close> lists the calls made on the subprocess and on the operating system, one event for
  every call made, whether it returns or raises. The content of \<open>_process_out_queue\<close> is filled
  by the reader threads; what the watchdog finds in it is part of the environment below.
\<close>

datatype rec_event = Launch string | Terminate | WaitProcess | Kill | HardKill

record recorder =
  recording :: bool
  attempts :: nat
  has_process :: bool
  process_out_capture_enabled :: bool
  rtrace :: "rec_event list"

text \<open>
  The environment of one call of \<open>stop\<close>. \<open>polls\<close> are the successive answers to
  \<open>self._process.poll() is None\<close> (True: still running); after the last one the process
  keeps running for ever. \<open>terminate_raises k\<close> says whether call number \<open>k\<close> of
  \<open>terminate()\<close> raises, \<open>wait_result\<close> is the result of \<open>wait(timeout=...)\<close>, \<open>kill_raises\<close>
  says whether \<open>kill()\<close> raises, and \<open>killer i\<close> is the fate of run number \<open>i\<close> of the
  external kill command.
\<close>

datatype wait_result = Exited | TimeoutExpired | WaitError

datatype killer_result = KillerExited | KillerLaunchError | KillerTimeout

record stop_env =
  polls :: "bool list"
  terminate_raises :: "nat \<Rightarrow> bool"
  wait_result :: wait_result
  kill_raises :: bool
  killer :: "nat \<Rightarrow> killer_result"

definition poll :: "bool list \<Rightarrow> bool \<times> bool list" where
  "poll ps = (case ps of [] \<Rightarrow> (True, []) | p # ps' \<Rightarrow> (p, ps'))"

text \<open>
  \<open>for _ in range(4): if poll() is not None: break; terminate(); sleep(0.1)\<close> inside
  \<open>try ... except: pass\<close>: a raising \<open>terminate()\<close> ends the loop. \<open>k\<close> counts the calls
  of \<open>terminate()\<close> made so far.
\<close>

fun reterminate ::
  "nat \<Rightarrow> (nat \<Rightarrow> bool) \<Rightarrow> nat \<Rightarrow> bool list \<Rightarrow> rec_event list \<Rightarrow> bool list \<times> rec_event list" where
  "reterminate 0 raises k ps tr = (ps, tr)"
| "reterminate (Suc n) raises k ps tr =
     (case poll ps of
        (alive, ps') \<Rightarrow>
          if \<not> alive then (ps', tr)
          else if raises k then (ps', tr @ [Terminate])
          else reterminate n raises (Suc k) ps' (tr @ [Terminate]))"

text \<open>
  Lines 174 to 202 of \<open>stop\<close>: the graceful termination and its escalation. The first
  component says whether an exception leaves this part (only \<open>kill()\<close> can, from inside the
  handler of \<open>TimeoutExpired\<close>); every other exception is caught here.
\<close>

definition graceful_stop :: "stop_env \<Rightarrow> rec_event list \<Rightarrow> bool \<times> bool list \<times> rec_event list" where
  "graceful_stop e tr =
     (case poll (polls e) of
        (alive, ps) \<Rightarrow>
          if \<not> alive then (False, ps, tr)
          else if terminate_raises e 0 then (False, ps, tr @ [Terminate])
          else
            (case wait_result e of
               Exited \<Rightarrow> (False, ps, tr @ [Terminate, WaitProcess])
             | WaitError \<Rightarrow> (False, ps, tr @ [Terminate, WaitProcess])
             | TimeoutExpired \<Rightarrow>
                 (case reterminate 4 (terminate_raises e) 1 ps (tr @ [Terminate, WaitProcess]) of
                    (ps1, tr1) \<Rightarrow>
                      (case poll ps1 of
                         (alive1, ps2) \<Rightarrow>
                           if alive1 then (kill_raises e, ps2, tr1 @ [Kill])
                           else (False, ps2, tr1)))))"

text \<open>
  \<open>for _ in range(3): Popen(kill command); wait(timeout=STOP_RECORDING_TIMEOUT); sleep(0.1)\<close>.
  The first component says whether the launch or the wait raised, which ends the loop.
\<close>

fun hard_kill :: "nat \<Rightarrow> (nat \<Rightarrow> killer_result) \<Rightarrow> nat \<Rightarrow> rec_event list \<Rightarrow> bool \<times> rec_event list" where
  "hard_kill 0 kr i tr = (False, tr)"
| "hard_kill (Suc n) kr i tr =
     (case kr i of
        KillerExited \<Rightarrow> hard_kill n kr (Suc i) (tr @ [HardKill])
      | KillerLaunchError \<Rightarrow> (True, tr @ [HardKill])
      | KillerTimeout \<Rightarrow> (True, tr @ [HardKill]))"

datatype stop_end = StopReturned | StopHangs

text \<open>
  \<open>Recorder.stop(from_self)\<close>. An exception inside the outer \<open>try\<close> is logged and \<open>stop\<close>
  returns with \<open>_process\<close> and \<open>recording\<close> as they were. The last loop,
  \<open>while self._process.poll() is None: sleep(0.1)\<close>, never ends when no later poll reports
  the exit of the process.
\<close>

definition stop :: "bool \<Rightarrow> stop_env \<Rightarrow> recorder \<Rightarrow> stop_end \<times> recorder" where
  "stop from_self e r =
     (if \<not> has_process r then (StopReturned, r)
      else
        (let r1 = (if from_self then r else r\<lparr>attempts := 0\<rparr>);
             r2 = r1\<lparr>process_out_capture_enabled := False\<rparr>
         in case graceful_stop e (rtrace r2) of
              (raised, ps, tr) \<Rightarrow>
                if raised then (StopReturned, r2\<lparr>rtrace := tr\<rparr>)
                else
                  (case hard_kill 3 (killer e) 0 tr of
                     (raised', tr1) \<Rightarrow>
                       if raised' then (StopReturned, r2\<lparr>rtrace := tr1\<rparr>)
                       else if list_all (\<lambda>p. p) ps then (StopHangs, r2\<lparr>rtrace := tr1\<rparr>)
                       else (StopReturned,
                             r2\<lparr>rtrace := tr1, has_process := False, recording := False\<rparr>))))"

text \<open>
  The environment of one attempt of \<open>start\<close>: whether anything before the launch raises
  (building the directory name, \<open>os.makedirs\<close>), whether \<open>Popen\<close> raises, whether the process
  is still running at the first poll, whether the watchdog reads a line containing
  \<open>frame=\<close> within \<open>START_RECORDING_TIMEOUT\<close>, and the environment of the call of \<open>stop\<close>
  after a timeout.
\<close>

record attempt_env =
  prepare_raises :: bool
  launch_raises :: bool
  alive_after_launch :: bool
  marker_seen :: bool
  stop_world :: stop_env

datatype start_result = Started string | StartFailed | StartHangs

lemma stop_from_self_attempts: "attempts (snd (stop True e r)) = attempts r"
  by (simp add: stop_def Let_def split: prod.splits)

text \<open>
  \<open>Recorder.start\<close>, for the output directory \<open>output_dir\<close> computed from the event time.
  \<open>envs k\<close> is the environment of attempt number \<open>k\<close> of this call (the recursive calls
  count on). \<open>StartFailed\<close> is the return value \<open>None\<close>.
\<close>

function start :: "(nat \<Rightarrow> attempt_env) \<Rightarrow> nat \<Rightarrow> string \<Rightarrow> recorder \<Rightarrow> start_result \<times> recorder" where
  "start envs k output_dir r =
     (if prepare_raises (envs k) then (StartFailed, r)
      else if launch_raises (envs k)
        then (StartFailed, r\<lparr>attempts := attempts r + 1, rtrace := rtrace r @ [Launch output_dir]\<rparr>)
      else
        (let r1 = r\<lparr>attempts := attempts r + 1, has_process := True,
                    process_out_capture_enabled := True, rtrace := rtrace r @ [Launch output_dir]\<rparr>
         in if \<not> alive_after_launch (envs k) then (StartFailed, r1)
            else if marker_seen (envs k)
              then (Started output_dir,
                    r1\<lparr>recording := True, process_out_capture_enabled := False, attempts := 0\<rparr>)
            else
              (case stop True (stop_world (envs k)) r1 of
                 (StopHangs, r2) \<Rightarrow> (StartHangs, r2)
               | (StopReturned, r2) \<Rightarrow>
                   if attempts r2 \<ge> START_ATTEMPTS then (StartFailed, r2\<lparr>attempts := 0\<rparr>)
                   else start envs (Suc k) output_dir r2)))"
  by pat_completeness auto
termination
proof (relation "measure (\<lambda>(envs, k, output_dir, r). START_ATTEMPTS - attempts r)", goal_cases)
  case 1
  show ?case by simp
next
  case (2 envs k output_dir r x xa y)
  then have "attempts y = attempts x"
    using stop_from_self_attempts[of "stop_world (envs k)" x] by (metis snd_conv)
  with 2 show ?case by simp
qed

declare start.simps [simp del]


text \<open>Concrete environments and states of the recorder.\<close>

definition stubborn_env :: stop_env where
  "stubborn_env =
     \<lparr>polls = [True, True, True, True, True, True, True, False],
      terminate_raises = (\<lambda>k. False), wait_result = TimeoutExpired, kill_raises = False,
      killer = (\<lambda>i. KillerExited)\<rparr>"

definition quiet_env :: stop_env where
  "quiet_env =
     \<lparr>polls = [True, False], terminate_raises = (\<lambda>k. False), wait_result = Exited,
      kill_raises = False, killer = (\<lambda>i. KillerExited)\<rparr>"

definition recording_recorder :: recorder where
  "recording_recorder =
     \<lparr>recording = True, attempts = 0, has_process = True, process_out_capture_enabled = False,
      rtrace = [Launch ''/out/a'']\<rparr>"

definition idle_recorder :: recorder where
  "idle_recorder =
     \<lparr>recording = False, attempts = 0, has_process = False, process_out_capture_enabled = False,
      rtrace = []\<rparr>"



definition good_attempt :: attempt_env where
  "good_attempt =
     \<lparr>prepare_raises = False, launch_raises = False, alive_after_launch = True,
      marker_seen = True, stop_world = quiet_env\<rparr>"



section \<open>Main loop (main.py)\<close>

definition SECONDS_BETWEEN_RECORDINGS :: real where
  "SECONDS_BETWEEN_RECORDINGS = 10"

definition MINIMUM_FILE_SIZE :: int where
  "MINIMUM_FILE_SIZE = 1000000"

text \<open>
  A naive local \<open>datetime\<close> is the number of whole seconds on the local wall clock since
  midnight of a fixed day; a day has 86400 of them (\<open>timedelta(days=1)\<close>). Only the date of
  \<open>datetime.today()\<close> is used, and \<open>fromtimestamp\<close> of an \<open>int\<close> has no fraction of a second.
\<close>

type_synonym datetime = int

text \<open>
  The entries of \<open>config\<close> that the loop reads. A format string stands for the function that
  \<open>strftime\<close> or \<open>format\<close> makes of it; \<open>output_dir_of\<close> is the directory that \<open>Recorder.start\<close>
  derives from the event time.
\<close>

record main_config =
  record_extra :: real
  event_text :: "datetime \<Rightarrow> string"
  event_test_text :: "datetime \<Rightarrow> string"
  event_text_start_time :: "datetime \<Rightarrow> string"
  event_text_interrupts_num :: "int \<Rightarrow> string"
  error_starting_recording :: string
  error_stopping_recording :: string
  output_dir_of :: "datetime \<Rightarrow> string"

text \<open>
  What lines 175 to 185 leave in \<open>last_interrupt_timestamp\<close> and \<open>interrupts_num\<close>: both 0
  when the file is missing or reading fails before the first assignment, the timestamp alone
  when the count does not parse, or both values.
\<close>

datatype counter_read = NoCounter | TimestampOnly int | Counter int int

fun last_interrupt_timestamp :: "counter_read \<Rightarrow> int" where
  "last_interrupt_timestamp NoCounter = 0"
| "last_interrupt_timestamp (TimestampOnly t) = t"
| "last_interrupt_timestamp (Counter t n) = t"

fun interrupts_num :: "counter_read \<Rightarrow> int" where
  "interrupts_num NoCounter = 0"
| "interrupts_num (TimestampOnly t) = 0"
| "interrupts_num (Counter t n) = n"

text \<open>
  What one pass of the loop reads from outside: the sensor, the flags set by the bot
  commands, the clocks (one field for each place where the clock is read), the content of
  the counter file, the conversion \<open>datetime.fromtimestamp\<close> (\<open>None\<close>: it raises), the
  environments of the calls of \<open>start\<close> and \<open>stop\<close>, the regular files found by \<open>os.listdir\<close>
  in a directory (\<open>None\<close>: it raises) and \<open>os.path.getsize\<close> of a path (\<open>None\<close>: it raises).
\<close>

record tick_in =
  door_opened :: bool
  pause_requested :: bool
  test_flag :: bool
  today_resumed :: datetime
  today_event :: datetime
  counter_file :: counter_read
  today_counted :: datetime
  fromtimestamp :: "int \<Rightarrow> datetime option"
  time_event :: int
  time_before_start :: real
  time_to_sleep :: real
  start_envs :: "nat \<Rightarrow> attempt_env"
  time_grace :: real
  stop_env_now :: stop_env
  time_stopped :: real
  dir_files :: "string \<Rightarrow> string list option"
  getsize :: "string \<Rightarrow> int option"

datatype main_event = WriteInterrupts int int | Sleep real

text \<open>
  The local variables of \<open>main\<close>, the queue of the bot handler (in the order of the \<open>put\<close>
  calls), the light, the recorder, and the other effects in order.
\<close>

record main_state =
  main_recording :: bool
  recording_stopped_time :: real
  door_closed_timer :: real
  pause_requested_prev :: bool
  files_sent :: "string list"
  output_dir :: "string option"
  datetime_started :: datetime
  queue :: "string list"
  light :: bool
  the_recorder :: recorder
  effects :: "main_event list"

text \<open>
  How a pass ends: the loop goes on, an exception other than KeyboardInterrupt and
  SystemExit leaves \<open>main\<close>, or a call never returns.
\<close>

datatype tick_end = Continues | Crashes | Hangs

text \<open>Lines 150 to 153.\<close>

definition resume_block :: "tick_in \<Rightarrow> main_state \<Rightarrow> main_state" where
  "resume_block i s =
     (if pause_requested i \<noteq> pause_requested_prev s
      then (let s1 = s\<lparr>pause_requested_prev := pause_requested i\<rparr>
            in if \<not> pause_requested i then s1\<lparr>datetime_started := today_resumed i\<rparr> else s1)
      else s)"

text \<open>
  Lines 187 to 198: the count written for a real door event, from the local datetime
  \<open>last_dt\<close> of the stored timestamp, the datetime \<open>today\<close> and the stored count \<open>num\<close>.
\<close>

definition count_interrupt :: "datetime \<Rightarrow> datetime \<Rightarrow> int \<Rightarrow> int" where
  "count_interrupt last_dt today num =
     (let today_start = today - today mod 86400;
          today_end = today_start + 86400 - 1
      in (if last_dt < today_start \<or> last_dt > today_end then 0 else num) + 1)"

text \<open>Lines 172 to 210: the \<open>else\<close> branch for a real door event; \<open>None\<close> when \<open>fromtimestamp\<close> raises.\<close>

definition door_event :: "main_config \<Rightarrow> tick_in \<Rightarrow> main_state \<Rightarrow> main_state option" where
  "door_event cfg i s =
     (case fromtimestamp i (last_interrupt_timestamp (counter_file i)) of
        None \<Rightarrow> None
      | Some last_dt \<Rightarrow>
          (let n = count_interrupt last_dt (today_counted i) (interrupts_num (counter_file i));
               message_text = event_text cfg (today_event i) @ ''\<newline>\<newline>''
                  @ event_text_start_time cfg (datetime_started s) @ ''\<newline>''
                  @ event_text_interrupts_num cfg n
           in Some (s\<lparr>effects := effects s @ [WriteInterrupts (time_event i) n],
                      queue := queue s @ [''text_'' @ message_text]\<rparr>)))"

text \<open>
  Lines 212 to 236, after the message of the event has been queued. \<open>time.sleep\<close> raises
  on a negative argument, which can happen when the second reading of the clock is late.
\<close>

definition start_recording :: "main_config \<Rightarrow> tick_in \<Rightarrow> main_state \<Rightarrow> tick_end \<times> main_state" where
  "start_recording cfg i s =
     (let s1 = s\<lparr>light := True, door_closed_timer := 0, output_dir := None, files_sent := []\<rparr>
      in if \<not> recording (the_recorder s1) then
           if time_before_start i - recording_stopped_time s1 < SECONDS_BETWEEN_RECORDINGS \<and>
              SECONDS_BETWEEN_RECORDINGS - (time_to_sleep i - recording_stopped_time s1) < 0
           then (Crashes, s1)
           else
           (let s2 = (if time_before_start i - recording_stopped_time s1 < SECONDS_BETWEEN_RECORDINGS
                      then s1\<lparr>effects := effects s1 @
                             [Sleep (SECONDS_BETWEEN_RECORDINGS - (time_to_sleep i - recording_stopped_time s1))]\<rparr>
                      else s1)
            in case start (start_envs i) 0 (output_dir_of cfg (today_event i)) (the_recorder s2) of
                 (StartHangs, r) \<Rightarrow> (Hangs, s2\<lparr>the_recorder := r\<rparr>)
               | (Started d, r) \<Rightarrow>
                   (Continues, s2\<lparr>the_recorder := r, output_dir := Some d, main_recording := True\<rparr>)
               | (StartFailed, r) \<Rightarrow>
                   (Continues, s2\<lparr>the_recorder := r, main_recording := True,
                                  queue := queue s2 @ [''text_'' @ error_starting_recording cfg]\<rparr>))
         else (Continues, s1\<lparr>queue := queue s1 @ [''text_'' @ error_starting_recording cfg]\<rparr>))"

text \<open>Lines 161 to 236.\<close>

definition start_block :: "main_config \<Rightarrow> tick_in \<Rightarrow> main_state \<Rightarrow> tick_end \<times> main_state" where
  "start_block cfg i s =
     (if (test_flag i \<or> (door_opened i \<and> \<not> pause_requested i)) \<and> \<not> main_recording s then
        (if test_flag i
         then start_recording cfg i
                (s\<lparr>queue := queue s @ [''text_'' @ event_test_text cfg (today_event i)]\<rparr>)
         else (case door_event cfg i s of
                 None \<Rightarrow> (Crashes, s)
               | Some s1 \<Rightarrow> start_recording cfg i s1))
      else (Continues, s))"

text \<open>The truth value of \<open>output_dir\<close> in \<open>if output_dir\<close>: neither \<open>None\<close> nor the empty string.\<close>

definition known_dir :: "string option \<Rightarrow> bool" where
  "known_dir d = (case d of None \<Rightarrow> False | Some p \<Rightarrow> p \<noteq> [])"

text \<open>Lines 238 to 265.\<close>

definition stop_block :: "main_config \<Rightarrow> tick_in \<Rightarrow> main_state \<Rightarrow> tick_end \<times> main_state" where
  "stop_block cfg i s =
     (if main_recording s \<and> (\<not> door_opened i \<or> pause_requested i) then
        (if door_closed_timer s = 0 then (Continues, s\<lparr>door_closed_timer := time_grace i\<rparr>)
         else if time_grace i - door_closed_timer s > record_extra cfg then
           (let s1 = s\<lparr>door_closed_timer := 0, main_recording := False, light := False\<rparr>
            in if recording (the_recorder s1) then
                 (case stop False (stop_env_now i) (the_recorder s1) of
                    (StopHangs, r) \<Rightarrow> (Hangs, s1\<lparr>the_recorder := r\<rparr>)
                  | (StopReturned, r) \<Rightarrow>
                      (Continues,
                       if known_dir (output_dir s1)
                       then s1\<lparr>the_recorder := r, recording_stopped_time := time_stopped i\<rparr>
                       else s1\<lparr>the_recorder := r\<rparr>))
               else (Continues, s1\<lparr>queue := queue s1 @ [''text_'' @ error_stopping_recording cfg]\<rparr>))
         else (Continues, s))
      else (Continues, s))"

text \<open>Lines 267 to 270.\<close>

definition cancel_block :: "tick_in \<Rightarrow> main_state \<Rightarrow> main_state" where
  "cancel_block i s =
     (if door_opened i \<and> main_recording s \<and> door_closed_timer s \<noteq> 0
      then s\<lparr>door_closed_timer := 0\<rparr> else s)"

text \<open>\<open>os.path.join\<close> of two components (posixpath).\<close>

definition path_join :: "string \<Rightarrow> string \<Rightarrow> string" where
  "path_join a b =
     (if b \<noteq> [] \<and> hd b = CHR ''/'' then b
      else if a = [] \<or> last a = CHR ''/'' then a @ b
      else a @ ''/'' @ b)"

text \<open>
  The list \<open>files\<close> of lines 274 to 276: the regular files of the directory that are not in
  \<open>files_sent\<close>, sorted (Python compares strings by code points, which is the bytewise
  lexicographic order of their UTF-8 encoding).
\<close>

definition unsent_files :: "string list \<Rightarrow> string list \<Rightarrow> string list" where
  "unsent_files listed sent = sort (filter (\<lambda>f. f \<notin> set sent) listed)"

text \<open>Lines 272 to 292.\<close>

definition send_files_block :: "tick_in \<Rightarrow> main_state \<Rightarrow> tick_end \<times> main_state" where
  "send_files_block i s =
     (case output_dir s of
        None \<Rightarrow> (Continues, s)
      | Some dir \<Rightarrow>
          if dir = [] then (Continues, s)
          else
            (case dir_files i dir of
               None \<Rightarrow> (Crashes, s)
             | Some listed \<Rightarrow>
                 (case unsent_files listed (files_sent s) of
                    [] \<Rightarrow> (Continues, s)
                  | file # files \<Rightarrow>
                      if length (file # files) > 1 \<or> \<not> main_recording s then
                        (let s1 = s\<lparr>files_sent := files_sent s @ [file]\<rparr>;
                             file_abs = path_join dir file
                         in case getsize i file_abs of
                              None \<Rightarrow> (Crashes, s1)
                            | Some filesize \<Rightarrow>
                                (let s2 = (if filesize > MINIMUM_FILE_SIZE
                                           then s1\<lparr>queue := queue s1 @ [''video_'' @ file_abs]\<rparr>
                                           else s1)
                                 in if length files = 0 \<and> \<not> main_recording s2
                                    then (Continues, s2\<lparr>output_dir := None\<rparr>)
                                    else (Continues, s2)))
                      else (Continues, s))))"

text \<open>One pass of the \<open>while True\<close> loop of \<open>main\<close>.\<close>

definition tick :: "main_config \<Rightarrow> tick_in \<Rightarrow> main_state \<Rightarrow> tick_end \<times> main_state" where
  "tick cfg i s =
     (case start_block cfg i (resume_block i s) of
        (Continues, s1) \<Rightarrow>
          (case stop_block cfg i s1 of
             (Continues, s2) \<Rightarrow> send_files_block i (cancel_block i s2)
           | (e, s2) \<Rightarrow> (e, s2))
      | (e, s1) \<Rightarrow> (e, s1))"

text \<open>Successive passes, one for each input, as long as the loop goes on.\<close>

fun ticks :: "main_config \<Rightarrow> tick_in list \<Rightarrow> main_state \<Rightarrow> tick_end \<times> main_state" where
  "ticks cfg [] s = (Continues, s)"
| "ticks cfg (i # is) s =
     (case tick cfg i s of
        (Continues, s') \<Rightarrow> ticks cfg is s'
      | (e, s') \<Rightarrow> (e, s'))"

text \<open>A concrete configuration, state and inputs of the loop.\<close>

definition example_main_config :: main_config where
  "example_main_config =
     \<lparr>record_extra = 10,
      event_text = (\<lambda>d. ''Door opened''),
      event_test_text = (\<lambda>d. ''Test''),
      event_text_start_time = (\<lambda>d. ''Running''),
      event_text_interrupts_num = (\<lambda>n. if n = 5 then ''Today: 5'' else ''Today: ?''),
      error_starting_recording = ''Error starting recording'',
      error_stopping_recording = ''Error stopping recording'',
      output_dir_of = (\<lambda>d. ''/out/a'')\<rparr>"

definition idle_main :: main_state where
  "idle_main =
     \<lparr>main_recording = False, recording_stopped_time = 0, door_closed_timer = 0,
      pause_requested_prev = False, files_sent = [], output_dir = None, datetime_started = 8600000,
      queue = [], light = False, the_recorder = idle_recorder, effects = []\<rparr>"

definition example_files :: "string \<Rightarrow> string list option" where
  "example_files d = (if d = ''/out/a'' then Some [''b.mp4'', ''a.mp4''] else None)"

definition example_sizes :: "string \<Rightarrow> int option" where
  "example_sizes p =
     (if p = ''/out/a/a.mp4'' then Some 5000000
      else if p = ''/out/a/b.mp4'' then Some 900 else None)"

definition local_time :: "int \<Rightarrow> datetime option" where
  "local_time t = Some (t + 3600)"

definition always_good :: "nat \<Rightarrow> attempt_env" where
  "always_good k = good_attempt"

definition door_opens :: tick_in where
  "door_opens =
     \<lparr>door_opened = True, pause_requested = False, test_flag = False,
      today_resumed = 8660000, today_event = 8660000, counter_file = Counter 8650000 4,
      today_counted = 8660000, fromtimestamp = local_time, time_event = 8656400,
      time_before_start = 1000, time_to_sleep = 1000, start_envs = always_good,
      time_grace = 1000, stop_env_now = quiet_env, time_stopped = 1000,
      dir_files = example_files, getsize = example_sizes\<rparr>"

definition door_closed :: "real \<Rightarrow> tick_in" where
  "door_closed t =
     \<lparr>door_opened = False, pause_requested = False, test_flag = False,
      today_resumed = 8660000, today_event = 8660000, counter_file = Counter 8650000 4,
      today_counted = 8660000, fromtimestamp = local_time, time_event = 8656400,
      time_before_start = t, time_to_sleep = t, start_envs = always_good,
      time_grace = t, stop_env_now = quiet_env, time_stopped = t,
      dir_files = (\<lambda>d. Some []), getsize = (\<lambda>p. None)\<rparr>"


definition recording_main :: main_state where
  "recording_main =
     \<lparr>main_recording = True, recording_stopped_time = 0, door_closed_timer = 0,
      pause_requested_prev = False, files_sent = [], output_dir = Some ''/out/a'',
      datetime_started = 8600000, queue = [], light = True, the_recorder = recording_recorder,
      effects = []\<rparr>"


text \<open>A pass that starts nothing: no test trigger, and the sensor closed or a pause requested.\<close>

definition quiet_pass :: "tick_in \<Rightarrow> bool" where
  "quiet_pass i = (\<not> test_flag i \<and> (\<not> door_opened i \<or> pause_requested i))"

text \<open>The job string queued for a file of the directory.\<close>

definition video_job :: "string \<Rightarrow> string \<Rightarrow> string" where
  "video_job dir f = ''video_'' @ path_join dir f"

definition files_listed :: "real \<Rightarrow> tick_in" where
  "files_listed t = (door_closed t)\<lparr>dir_files := example_files, getsize := example_sizes\<rparr>"

definition stopped_main :: main_state where
  "stopped_main =
     \<lparr>main_recording = False, recording_stopped_time = 1016, door_closed_timer = 0,
      pause_requested_prev = False, files_sent = [], output_dir = Some ''/out/a'',
      datetime_started = 8600000, queue = [], light = False, the_recorder = idle_recorder,
      effects = []\<rparr>"

definition example_size_of :: "string \<Rightarrow> int" where
  "example_size_of f = (if f = ''a.mp4'' then 5000000 else 900)"


text \<open>A pass with the sensor open and a pause requested.\<close>

definition pause_open :: "real \<Rightarrow> tick_in" where
  "pause_open t = (door_closed t)\<lparr>door_opened := True, pause_requested := True\<rparr>"

section \<open>Properties of the delivery queue\<close>

subsection \<open>The retry loop\<close>

lemma network_errors_step:
  "a < b \<Longrightarrow> network_errors w a b =
     (if send_result w a = NetworkError then 1 else 0) + network_errors w (Suc a) b"
  by (simp add: network_errors_def upt_conv_Cons)

lemma try_send_counts:
  "try_send w video u d vid msgs s = (r, msgs', s') \<Longrightarrow>
     sends_done s' = Suc (sends_done s) \<and> running_reads s' = running_reads s \<and>
     (r = Network \<longleftrightarrow> send_result w (sends_done s) = NetworkError)"
  by (auto simp: try_send_def Let_def split: send_outcome.splits if_splits option.splits)

lemma tries_after_le:
  "r \<noteq> Success \<Longrightarrow> c < SEND_FILE_TRIES_MAX \<Longrightarrow> tries_after r c \<le> SEND_FILE_TRIES_MAX"
  by (cases r) (simp_all add: tries_after_def SEND_FILE_TRIES_MAX_def)

lemma try_send_trace_last:
  "try_send w video u d vid msgs s = (r, msgs', s') \<Longrightarrow>
     \<exists>t e. trace s' = t @ [e] \<and> e \<noteq> LogRetriesExceeded"
  by (auto simp: try_send_def Let_def split: send_outcome.splits if_splits option.splits)

lemma send_retry_loop_bound:
  "tries_counter < SEND_FILE_TRIES_MAX \<Longrightarrow>
   send_retry_loop w video u d vid tries_counter msgs s = (c', msgs', s') \<Longrightarrow>
   sends_done s \<le> sends_done s' \<and>
   sends_done s' - sends_done s + tries_counter
     \<le> SEND_FILE_TRIES_MAX + 2 * network_errors w (sends_done s) (sends_done s')"
proof (induction w video u d vid tries_counter msgs s arbitrary: c' msgs' s' rule: send_retry_loop.induct)
  case (1 w video user_id data_to_send video_id tries_counter video_msgs s)
  show ?case
  proof (cases "running_reads s = 0")
    case True
    with "1.prems" show ?thesis
      by (simp add: send_retry_loop.simps network_errors_def)
  next
    case False
    obtain r m1 s1 where ts: "try_send w video user_id data_to_send video_id video_msgs
                (s\<lparr>running_reads := running_reads s - 1\<rparr>) = (r, m1, s1)"
      by (metis prod_cases3)
    from try_send_counts[OF ts] have sd: "sends_done s1 = Suc (sends_done s)"
      and rn: "r = Network \<longleftrightarrow> send_result w (sends_done s) = NetworkError" by simp_all
    let ?t = "tries_after r tries_counter"
    consider (ok) "r = Success" | (stop) "r \<noteq> Success" "?t \<ge> SEND_FILE_TRIES_MAX"
      | (again) "r \<noteq> Success" "\<not> ?t \<ge> SEND_FILE_TRIES_MAX" by blast
    then show ?thesis
    proof cases
      case ok
      with False ts "1.prems" have "s' = s1"
        by (simp add: send_retry_loop.simps)
      with sd "1.prems"(1) show ?thesis
        by (simp add: network_errors_step)
    next
      case stop
      with False ts "1.prems" have "s' = s1\<lparr>trace := trace s1 @ [LogRetriesExceeded]\<rparr>"
        by (simp add: send_retry_loop.simps)
      with sd "1.prems"(1) show ?thesis
        by (simp add: network_errors_step)
    next
      case again
      let ?s2 = "s1\<lparr>trace := trace s1 @ [Wait DELAY_BETWEEN_RETRIES]\<rparr>"
      from again False ts "1.prems"
      have rec: "send_retry_loop w video user_id data_to_send video_id ?t m1 ?s2 = (c', msgs', s')"
        by (simp add: send_retry_loop.simps)
      from again have tlt: "?t < SEND_FILE_TRIES_MAX" by simp
      have ih: "sends_done ?s2 \<le> sends_done s' \<and>
                sends_done s' - sends_done ?s2 + ?t
                  \<le> SEND_FILE_TRIES_MAX + 2 * network_errors w (sends_done ?s2) (sends_done s')"
        using "1.IH"[OF False ts[symmetric] refl again(1) again(2) tlt rec] .
      have lt: "sends_done s < sends_done s'" using ih sd by simp
      show ?thesis
      proof (cases "r = Network")
        case True
        then have "?t = 1" by (simp add: tries_after_def)
        with ih sd rn True lt "1.prems"(1) show ?thesis
          by (simp add: network_errors_step[OF lt] SEND_FILE_TRIES_MAX_def)
      next
        case False
        with again have "r = Other" by (cases r) simp_all
        then have "?t = tries_counter + 1" by (simp add: tries_after_def)
        with ih sd rn False lt show ?thesis
          by (simp add: network_errors_step[OF lt])
      qed
    qed
  qed
qed

lemma send_retry_loop_ending:
  "tries_counter < SEND_FILE_TRIES_MAX \<Longrightarrow>
   send_retry_loop w video u d vid tries_counter msgs s = (c', msgs', s') \<Longrightarrow>
   (c' = SEND_FILE_TRIES_MAX \<and> sends_done s < sends_done s' \<and> (\<exists>t. trace s' = t @ [LogRetriesExceeded]))
   \<or> (c' < SEND_FILE_TRIES_MAX \<and> (s' = s \<or> (\<exists>t e. trace s' = t @ [e] \<and> e \<noteq> LogRetriesExceeded)))"
proof (induction w video u d vid tries_counter msgs s arbitrary: c' msgs' s' rule: send_retry_loop.induct)
  case (1 w video user_id data_to_send video_id tries_counter video_msgs s)
  show ?case
  proof (cases "running_reads s = 0")
    case True
    with "1.prems" show ?thesis
      by (auto simp add: send_retry_loop.simps)
  next
    case False
    obtain r m1 s1 where ts: "try_send w video user_id data_to_send video_id video_msgs
                (s\<lparr>running_reads := running_reads s - 1\<rparr>) = (r, m1, s1)"
      by (metis prod_cases3)
    from try_send_counts[OF ts] have sd: "sends_done s1 = Suc (sends_done s)" by simp
    from try_send_trace_last[OF ts] obtain t e where
      tl: "trace s1 = t @ [e]" "e \<noteq> LogRetriesExceeded" by blast
    let ?t = "tries_after r tries_counter"
    consider (ok) "r = Success" | (stop) "r \<noteq> Success" "?t \<ge> SEND_FILE_TRIES_MAX"
      | (again) "r \<noteq> Success" "\<not> ?t \<ge> SEND_FILE_TRIES_MAX" by blast
    then show ?thesis
    proof cases
      case ok
      with False ts "1.prems" have "s' = s1" "c' = tries_counter"
        by (simp_all add: send_retry_loop.simps)
      with tl "1.prems"(1) show ?thesis by simp
    next
      case stop
      with False ts "1.prems" have "s' = s1\<lparr>trace := trace s1 @ [LogRetriesExceeded]\<rparr>" "c' = ?t"
        by (simp_all add: send_retry_loop.simps)
      with sd stop tries_after_le[OF stop(1) "1.prems"(1)] show ?thesis by simp
    next
      case again
      let ?s2 = "s1\<lparr>trace := trace s1 @ [Wait DELAY_BETWEEN_RETRIES]\<rparr>"
      from again False ts "1.prems"
      have rec: "send_retry_loop w video user_id data_to_send video_id ?t m1 ?s2 = (c', msgs', s')"
        by (simp add: send_retry_loop.simps)
      from again have tlt: "?t < SEND_FILE_TRIES_MAX" by simp
      have ih: "(c' = SEND_FILE_TRIES_MAX \<and> sends_done ?s2 < sends_done s'
                   \<and> (\<exists>t. trace s' = t @ [LogRetriesExceeded]))
                \<or> (c' < SEND_FILE_TRIES_MAX
                   \<and> (s' = ?s2 \<or> (\<exists>t e. trace s' = t @ [e] \<and> e \<noteq> LogRetriesExceeded)))"
        using "1.IH"[OF False ts[symmetric] refl again(1) again(2) tlt rec] .
      then show ?thesis
      proof (elim disjE conjE)
        assume "c' = SEND_FILE_TRIES_MAX" "sends_done ?s2 < sends_done s'"
          "\<exists>t. trace s' = t @ [LogRetriesExceeded]"
        with sd show ?thesis by simp
      next
        assume "c' < SEND_FILE_TRIES_MAX" "s' = ?s2"
        then show ?thesis by simp
      next
        assume "c' < SEND_FILE_TRIES_MAX" "\<exists>t e. trace s' = t @ [e] \<and> e \<noteq> LogRetriesExceeded"
        then show ?thesis by simp
      qed
    qed
  qed
qed

lemma try_send_class:
  "try_send w video u d vid msgs s = (r, msgs', s') \<Longrightarrow>
     (r = Success \<longleftrightarrow> delivered (send_result w (sends_done s))) \<and>
     tries_after r c = next_counter (send_result w (sends_done s)) c"
  by (auto simp: try_send_def Let_def delivered_def next_counter_def tries_after_def
           split: send_outcome.splits if_splits option.splits)

lemma send_retry_loop_exact:
  "tries_counter < SEND_FILE_TRIES_MAX \<Longrightarrow>
   send_retry_loop w video u d vid tries_counter msgs s = (c', msgs', s') \<Longrightarrow>
   sends_done s \<le> sends_done s' \<and>
   sends_done s' - sends_done s \<le> running_reads s \<and>
   running_reads s' = running_reads s - (sends_done s' - sends_done s) \<and>
   c' = counter_after w (sends_done s) tries_counter (sends_done s' - sends_done s) \<and>
   (\<forall>j. j + 1 < sends_done s' - sends_done s \<longrightarrow>
        \<not> delivered (send_result w (sends_done s + j)) \<and>
        counter_after w (sends_done s) tries_counter (j + 1) < SEND_FILE_TRIES_MAX) \<and>
   (sends_done s' - sends_done s < running_reads s \<longrightarrow>
        sends_done s < sends_done s' \<and>
        (delivered (send_result w (sends_done s' - 1)) \<or> c' = SEND_FILE_TRIES_MAX))"
proof (induction w video u d vid tries_counter msgs s arbitrary: c' msgs' s' rule: send_retry_loop.induct)
  case (1 w video user_id data_to_send video_id tries_counter video_msgs s)
  show ?case
  proof (cases "running_reads s = 0")
    case True
    with "1.prems" show ?thesis
      by (simp add: send_retry_loop.simps)
  next
    case False
    let ?s0 = "s\<lparr>running_reads := running_reads s - 1\<rparr>"
    let ?a = "sends_done s"
    let ?o = "send_result w ?a"
    obtain r m1 s1 where ts: "try_send w video user_id data_to_send video_id video_msgs ?s0 = (r, m1, s1)"
      by (metis prod_cases3)
    from try_send_counts[OF ts] have sd: "sends_done s1 = Suc ?a"
      and rr: "running_reads s1 = running_reads s - 1" by simp_all
    from try_send_class[OF ts, of tries_counter]
    have cl: "r = Success \<longleftrightarrow> delivered ?o" "tries_after r tries_counter = next_counter ?o tries_counter"
      by simp_all
    let ?t = "tries_after r tries_counter"
    consider (ok) "r = Success" | (stop) "r \<noteq> Success" "?t \<ge> SEND_FILE_TRIES_MAX"
      | (again) "r \<noteq> Success" "\<not> ?t \<ge> SEND_FILE_TRIES_MAX" by blast
    then show ?thesis
    proof cases
      case ok
      with False ts "1.prems" have e: "s' = s1" "c' = tries_counter"
        by (simp_all add: send_retry_loop.simps)
      from ok cl have "next_counter ?o tries_counter = tries_counter"
        by (simp add: tries_after_def)
      with e sd rr False ok cl show ?thesis by simp
    next
      case stop
      with False ts "1.prems" have e: "s' = s1\<lparr>trace := trace s1 @ [LogRetriesExceeded]\<rparr>" "c' = ?t"
        by (simp_all add: send_retry_loop.simps)
      from tries_after_le[OF stop(1) "1.prems"(1)] stop(2) have "?t = SEND_FILE_TRIES_MAX" by simp
      with e sd rr False cl show ?thesis by simp
    next
      case again
      let ?s2 = "s1\<lparr>trace := trace s1 @ [Wait DELAY_BETWEEN_RETRIES]\<rparr>"
      from again False ts "1.prems"
      have rec: "send_retry_loop w video user_id data_to_send video_id ?t m1 ?s2 = (c', msgs', s')"
        by (simp add: send_retry_loop.simps)
      from again have tlt: "?t < SEND_FILE_TRIES_MAX" by simp
      let ?n' = "sends_done s' - Suc ?a"
      have ih: "Suc ?a \<le> sends_done s' \<and>
                ?n' \<le> running_reads s - 1 \<and>
                running_reads s' = running_reads s - 1 - ?n' \<and>
                c' = counter_after w (Suc ?a) ?t ?n' \<and>
                (\<forall>j. j + 1 < ?n' \<longrightarrow>
                   \<not> delivered (send_result w (Suc ?a + j)) \<and>
                   counter_after w (Suc ?a) ?t (j + 1) < SEND_FILE_TRIES_MAX) \<and>
                (?n' < running_reads s - 1 \<longrightarrow>
                   Suc ?a < sends_done s' \<and>
                   (delivered (send_result w (sends_done s' - 1)) \<or> c' = SEND_FILE_TRIES_MAX))"
      proof -
        have sd2: "sends_done ?s2 = Suc ?a" using sd by simp
        have rr2: "running_reads ?s2 = running_reads s - 1" using rr by simp
        show ?thesis
          using "1.IH"[OF False ts[symmetric] refl again(1) again(2) tlt rec]
          unfolding sd2 rr2 .
      qed
      have i1: "Suc ?a \<le> sends_done s'" using ih by (rule conjunct1)
      have i2: "?n' \<le> running_reads s - 1" using ih by blast
      have i3: "running_reads s' = running_reads s - 1 - ?n'" using ih by blast
      have i4: "c' = counter_after w (Suc ?a) ?t ?n'" using ih by blast
      have i5: "\<forall>j. j + 1 < ?n' \<longrightarrow>
                   \<not> delivered (send_result w (Suc ?a + j)) \<and>
                   counter_after w (Suc ?a) ?t (j + 1) < SEND_FILE_TRIES_MAX" using ih by blast
      have i6: "?n' < running_reads s - 1 \<longrightarrow>
                   Suc ?a < sends_done s' \<and>
                   (delivered (send_result w (sends_done s' - 1)) \<or> c' = SEND_FILE_TRIES_MAX)"
        using ih by blast
      have n: "sends_done s' - ?a = Suc ?n'" using i1 by arith
      have p1: "?a \<le> sends_done s'" using i1 by arith
      have p2: "sends_done s' - ?a \<le> running_reads s" using i2 n False by arith
      have p3: "running_reads s' = running_reads s - (sends_done s' - ?a)" using i3 n by arith
      have p4: "c' = counter_after w ?a tries_counter (sends_done s' - ?a)"
        unfolding n using i4 cl(2) by simp
      have p5: "\<forall>j. j + 1 < sends_done s' - ?a \<longrightarrow>
                   \<not> delivered (send_result w (?a + j)) \<and>
                   counter_after w ?a tries_counter (j + 1) < SEND_FILE_TRIES_MAX"
      proof (intro allI impI)
        fix j assume j: "j + 1 < sends_done s' - ?a"
        show "\<not> delivered (send_result w (?a + j)) \<and>
                   counter_after w ?a tries_counter (j + 1) < SEND_FILE_TRIES_MAX"
        proof (cases j)
          case 0
          with again cl tlt show ?thesis by simp
        next
          case (Suc j')
          with j n have "j' + 1 < ?n'" by arith
          with i5 have "\<not> delivered (send_result w (Suc ?a + j')) \<and>
                   counter_after w (Suc ?a) ?t (j' + 1) < SEND_FILE_TRIES_MAX" by blast
          with Suc cl(2) show ?thesis by simp
        qed
      qed
      have p6: "sends_done s' - ?a < running_reads s \<longrightarrow>
                   ?a < sends_done s' \<and>
                   (delivered (send_result w (sends_done s' - 1)) \<or> c' = SEND_FILE_TRIES_MAX)"
      proof
        assume "sends_done s' - ?a < running_reads s"
        with n have "?n' < running_reads s - 1" by arith
        with i6 have "delivered (send_result w (sends_done s' - 1)) \<or> c' = SEND_FILE_TRIES_MAX"
          by blast
        moreover have "?a < sends_done s'" using i1 by arith
        ultimately show "?a < sends_done s' \<and>
                   (delivered (send_result w (sends_done s' - 1)) \<or> c' = SEND_FILE_TRIES_MAX)"
          by blast
      qed
      from p1 p2 p3 p4 p5 p6 show ?thesis by blast
    qed
  qed
qed

text \<open>
  C1, as amended. In the retry loop of \<open>_send_text_or_video\<close>, started for a recipient with the
  counter at 0, the counter follows the failures met: a NetworkError sets it to 1 and any
  other failure adds 1 to it, so after the \<open>n\<close> send calls of the loop it is
  \<open>counter_after\<close> of them. The loop goes on after a send call exactly as long as that call
  failed and the counter is still below \<open>SEND_FILE_TRIES_MAX = 3\<close>: it ends only on a
  delivery, on the counter reaching 3 (the recipient is abandoned, with "retries exceeded"
  logged), or on the running flag read False. The counter never exceeds 3. The number
  of send attempts to the recipient is at most 3 plus twice the number of NetworkErrors
  met, hence at most 3 when no NetworkError occurs; it is not bounded by 3 in general.
\<close>

theorem send_attempts_bound:
  assumes "send_retry_loop w video user_id data_to_send video_id 0 video_msgs s = (c', msgs', s')"
  shows "tries_after Network c = 1 \<and> tries_after Other c = c + 1 \<and>
         send_text_or_video w video user_id data_to_send video_id video_msgs s
           = (msgs', s'\<lparr>trace := trace s' @ [Wait DELAY_BETWEEN_USERS]\<rparr>) \<and>
         c' \<le> SEND_FILE_TRIES_MAX \<and>
         (c' = SEND_FILE_TRIES_MAX \<longleftrightarrow>
            sends_done s < sends_done s' \<and> (\<exists>t. trace s' = t @ [LogRetriesExceeded])) \<and>
         sends_done s' - sends_done s
           \<le> SEND_FILE_TRIES_MAX + 2 * network_errors w (sends_done s) (sends_done s') \<and>
         (network_errors w (sends_done s) (sends_done s') = 0
            \<longrightarrow> sends_done s' - sends_done s \<le> SEND_FILE_TRIES_MAX) \<and>
         sends_done s \<le> sends_done s' \<and>
         sends_done s' - sends_done s \<le> running_reads s \<and>
         running_reads s' = running_reads s - (sends_done s' - sends_done s) \<and>
         c' = counter_after w (sends_done s) 0 (sends_done s' - sends_done s) \<and>
         (\<forall>j. j + 1 < sends_done s' - sends_done s \<longrightarrow>
              \<not> delivered (send_result w (sends_done s + j)) \<and>
              counter_after w (sends_done s) 0 (j + 1) < SEND_FILE_TRIES_MAX) \<and>
         (sends_done s' - sends_done s < running_reads s \<longrightarrow>
              sends_done s < sends_done s' \<and>
              (delivered (send_result w (sends_done s' - 1)) \<or> c' = SEND_FILE_TRIES_MAX))"
proof -
  have pos: "0 < SEND_FILE_TRIES_MAX" by (simp add: SEND_FILE_TRIES_MAX_def)
  have b: "sends_done s' - sends_done s
             \<le> SEND_FILE_TRIES_MAX + 2 * network_errors w (sends_done s) (sends_done s')"
    using send_retry_loop_bound[OF pos assms] by simp
  have z: "network_errors w (sends_done s) (sends_done s') = 0
            \<longrightarrow> sends_done s' - sends_done s \<le> SEND_FILE_TRIES_MAX"
    using b by simp
  have e: "c' \<le> SEND_FILE_TRIES_MAX \<and>
           (c' = SEND_FILE_TRIES_MAX \<longleftrightarrow>
              sends_done s < sends_done s' \<and> (\<exists>t. trace s' = t @ [LogRetriesExceeded]))"
    using send_retry_loop_ending[OF pos assms] by auto
  have t: "send_text_or_video w video user_id data_to_send video_id video_msgs s
             = (msgs', s'\<lparr>trace := trace s' @ [Wait DELAY_BETWEEN_USERS]\<rparr>)"
    using assms by (simp add: send_text_or_video_def)
  have r: "tries_after Network c = 1 \<and> tries_after Other c = c + 1"
    by (simp add: tries_after_def)
  note x = send_retry_loop_exact[OF pos assms]
  from r t e b z x show ?thesis by blast
qed

theorem send_attempts_bound_witness:
  "send_retry_loop flaky_world False 7 ''hi'' None 0 [] fresh_sender
     = (1, [], \<lparr>running_reads = 5, sends_done = 5, loads_done = 0, draws = [],
                trace = [SendMessage 7 ''hi'', Wait 3, SendMessage 7 ''hi'', Wait 3,
                         SendMessage 7 ''hi'', Wait 3, SendMessage 7 ''hi'', Wait 3,
                         SendMessage 7 ''hi'']\<rparr>) \<and>
   (5::nat) - sends_done fresh_sender
     \<le> SEND_FILE_TRIES_MAX + 2 * network_errors flaky_world (sends_done fresh_sender) 5 \<and>
   counter_after flaky_world 0 0 5 = 1 \<and> delivered (send_result flaky_world 4) \<and>
   send_retry_loop failing_world False 7 ''hi'' None 0 [] fresh_sender
     = (3, [], \<lparr>running_reads = 6, sends_done = 4, loads_done = 0, draws = [],
                trace = [SendMessage 7 ''hi'', Wait 3, SendMessage 7 ''hi'', Wait 3,
                         SendMessage 7 ''hi'', Wait 3, SendMessage 7 ''hi'',
                         LogRetriesExceeded]\<rparr>) \<and>
   counter_after failing_world 0 0 1 = 1 \<and> counter_after failing_world 0 0 2 = 1 \<and>
   counter_after failing_world 0 0 3 = 2 \<and> counter_after failing_world 0 0 4 = 3"
proof -
  have run: "send_retry_loop flaky_world False 7 ''hi'' None 0 [] fresh_sender
     = (1, [], \<lparr>running_reads = 5, sends_done = 5, loads_done = 0, draws = [],
                trace = [SendMessage 7 ''hi'', Wait 3, SendMessage 7 ''hi'', Wait 3,
                         SendMessage 7 ''hi'', Wait 3, SendMessage 7 ''hi'', Wait 3,
                         SendMessage 7 ''hi'']\<rparr>)"
    by (simp add: send_retry_loop.simps try_send_def tries_after_def flaky_world_def
          fresh_sender_def SEND_FILE_TRIES_MAX_def DELAY_BETWEEN_RETRIES_def)
  have run2: "send_retry_loop failing_world False 7 ''hi'' None 0 [] fresh_sender
     = (3, [], \<lparr>running_reads = 6, sends_done = 4, loads_done = 0, draws = [],
                trace = [SendMessage 7 ''hi'', Wait 3, SendMessage 7 ''hi'', Wait 3,
                         SendMessage 7 ''hi'', Wait 3, SendMessage 7 ''hi'',
                         LogRetriesExceeded]\<rparr>)"
    by (simp add: send_retry_loop.simps try_send_def tries_after_def failing_world_def
          fresh_sender_def SEND_FILE_TRIES_MAX_def DELAY_BETWEEN_RETRIES_def)
  have b: "(5::nat) - sends_done fresh_sender
     \<le> SEND_FILE_TRIES_MAX + 2 * network_errors flaky_world (sends_done fresh_sender) 5"
    using send_attempts_bound[OF run] by simp
  have c1: "counter_after flaky_world 0 0 5 = 1"
    using send_attempts_bound[OF run] by (simp add: fresh_sender_def)
  have d: "delivered (send_result flaky_world 4)"
    by (simp add: delivered_def flaky_world_def)
  have c2: "counter_after failing_world 0 0 4 = 3"
    using send_attempts_bound[OF run2] by (simp add: fresh_sender_def)
  have c3: "counter_after failing_world 0 0 1 = 1" "counter_after failing_world 0 0 2 = 1"
    "counter_after failing_world 0 0 3 = 2"
    by (simp_all add: eval_nat_numeral next_counter_def failing_world_def)
  from run run2 b c1 d c2 c3 show ?thesis by blast
qed

text \<open>
  The claim as stated fails: with four NetworkErrors in a row and then a success, the
  recipient receives five send attempts, more than \<open>SEND_FILE_TRIES_MAX\<close>.
\<close>

theorem send_attempts_exceed_maximum:
  "\<not> sends_done (snd (send_text_or_video flaky_world False 7 ''hi'' None [] fresh_sender))
       - sends_done fresh_sender \<le> SEND_FILE_TRIES_MAX"
  by (simp add: send_text_or_video_def send_retry_loop.simps try_send_def tries_after_def
        flaky_world_def fresh_sender_def SEND_FILE_TRIES_MAX_def)

subsection \<open>Video ids\<close>

lemma alphabet_length: "length alphabet = 62"
  by (simp add: alphabet_def)

lemma choices_props: "length (choices rs) = length rs \<and> set (choices rs) \<subseteq> set alphabet"
proof -
  have "alphabet ! (r mod length alphabet) \<in> set alphabet" for r
    by (rule nth_mem) (simp add: alphabet_length)
  then show ?thesis by (auto simp: choices_def)
qed

lemma gen_video_id_fresh:
  "gen_video_id msgs ds = Some (v, rest) \<Longrightarrow>
     map_of msgs v = None \<and> length v = VIDEO_ID_LENGTH \<and> set v \<subseteq> set alphabet \<and> length rest < length ds"
proof (induction msgs ds rule: gen_video_id.induct)
  case (1 msgs ds)
  show ?case
  proof (cases "length ds < VIDEO_ID_LENGTH")
    case True
    with "1.prems" show ?thesis by (simp add: gen_video_id.simps)
  next
    case False
    let ?c = "choices (take VIDEO_ID_LENGTH ds)"
    show ?thesis
    proof (cases "?c = [] \<or> map_of msgs ?c \<noteq> None")
      case True
      with False "1.prems" have "gen_video_id msgs (drop VIDEO_ID_LENGTH ds) = Some (v, rest)"
        by (simp add: gen_video_id.simps Let_def)
      from "1.IH"[OF False refl True this] show ?thesis by auto
    next
      case nc: False
      with False "1.prems" have "v = ?c" "rest = drop VIDEO_ID_LENGTH ds"
        by (simp_all add: gen_video_id.simps Let_def)
      with nc False choices_props[of "take VIDEO_ID_LENGTH ds"] show ?thesis
        by (auto simp: VIDEO_ID_LENGTH_def)
    qed
  qed
qed

lemma gen_video_id_finds:
  "(k + 1) * VIDEO_ID_LENGTH \<le> length ds \<Longrightarrow> map_of msgs (candidate ds k) = None \<Longrightarrow>
     gen_video_id msgs ds \<noteq> None"
proof (induction k arbitrary: ds)
  case 0
  then have c: "choices (take VIDEO_ID_LENGTH ds) \<noteq> []"
    using choices_props[of "take VIDEO_ID_LENGTH ds"] by (auto simp: VIDEO_ID_LENGTH_def)
  show ?case
  proof (cases "map_of msgs (choices (take VIDEO_ID_LENGTH ds)) = None")
    case True
    with 0 c show ?thesis by (simp add: gen_video_id.simps[of msgs ds] Let_def)
  next
    case False
    with 0 show ?thesis by (simp add: candidate_def)
  qed
next
  case (Suc k)
  have len: "\<not> length ds < VIDEO_ID_LENGTH" using Suc.prems(1) by simp
  have "(k + 1) * VIDEO_ID_LENGTH \<le> length (drop VIDEO_ID_LENGTH ds)"
    using Suc.prems(1) by simp
  moreover have "candidate (drop VIDEO_ID_LENGTH ds) k = candidate ds (Suc k)"
    by (simp add: candidate_def add.commute)
  ultimately have ih: "gen_video_id msgs (drop VIDEO_ID_LENGTH ds) \<noteq> None"
    using Suc.IH[of "drop VIDEO_ID_LENGTH ds"] Suc.prems(2) by simp
  show ?case
    using len ih by (simp add: gen_video_id.simps[of msgs ds] Let_def)
qed

subsection \<open>The trace of a Video job\<close>

lemma persisted_append:
  "persisted_after_each_send w v st tr1 = Some st1 \<Longrightarrow>
     persisted_after_each_send w v st (tr1 @ tr2) = persisted_after_each_send w v st1 tr2"
proof (induction w v st tr1 rule: persisted_after_each_send.induct)
  case (1 w v n d)
  then show ?case by simp
next
  case (2 w v n d u p c tr)
  show ?case
  proof (cases "send_result w n")
    case (Sent m)
    show ?thesis
    proof (cases "m \<ge> 0")
      case True
      with Sent "2.prems" obtain d' tr' where
        tr: "tr = WriteVideoMessages d' # tr'" and
        ap: "append_message (Some v) u m d = Some d'" and
        rest: "persisted_after_each_send w v (Suc n, d') tr' = Some st1"
        by (simp split: list.splits event.splits if_splits)
      from "2.IH"(1)[OF Sent True tr refl ap rest] Sent True tr ap
      show ?thesis by simp
    next
      case False
      with Sent "2.prems" have "persisted_after_each_send w v (Suc n, d) tr = Some st1" by simp
      from "2.IH"(2)[OF Sent False this] Sent False show ?thesis by simp
    qed
  next
    case NetworkError
    with "2.prems" have "persisted_after_each_send w v (Suc n, d) tr = Some st1" by simp
    from "2.IH"(3)[OF NetworkError this] NetworkError show ?thesis by simp
  next
    case OtherError
    with "2.prems" have "persisted_after_each_send w v (Suc n, d) tr = Some st1" by simp
    from "2.IH"(4)[OF OtherError this] OtherError show ?thesis by simp
  qed
qed simp_all

lemma append_message_keeps_key:
  "append_message (Some v) u m msgs = Some msgs' \<Longrightarrow> map_of msgs' v \<noteq> None"
  by (auto simp: append_message_def update_conv' split: option.splits)

lemma append_message_defined:
  "map_of msgs v \<noteq> None \<Longrightarrow> append_message (Some v) u m msgs \<noteq> None"
  by (auto simp: append_message_def split: option.splits)

lemma try_send_video_checked:
  assumes "try_send w True u p (Some v) msgs s = (r, msgs', s')" and "map_of msgs v \<noteq> None"
  shows "\<exists>ev. trace s' = trace s @ ev \<and>
           persisted_after_each_send w v (sends_done s, msgs) ev = Some (sends_done s', msgs') \<and>
           map_of msgs' v \<noteq> None"
proof (cases "send_result w (sends_done s)")
  case (Sent m)
  show ?thesis
  proof (cases "m \<ge> 0")
    case True
    from append_message_defined[OF assms(2)] obtain d' where
      d': "append_message (Some v) u m msgs = Some d'" by blast
    with assms(1) Sent True have
      "msgs' = d'" "trace s' = trace s @ [SendVideo u p (callback_data (Some v)), WriteVideoMessages d']"
      "sends_done s' = Suc (sends_done s)"
      by (auto simp: try_send_def Let_def)
    with d' Sent True append_message_keeps_key[OF d'] show ?thesis by simp
  next
    case False
    with assms Sent show ?thesis by (auto simp: try_send_def Let_def)
  qed
next
  case NetworkError
  with assms show ?thesis by (auto simp: try_send_def Let_def)
next
  case OtherError
  with assms show ?thesis by (auto simp: try_send_def Let_def)
qed

lemma send_retry_loop_checked:
  "video \<Longrightarrow> vid = Some v \<Longrightarrow> map_of msgs v \<noteq> None \<Longrightarrow>
   send_retry_loop w video u d vid tries_counter msgs s = (c', msgs', s') \<Longrightarrow>
   \<exists>ev. trace s' = trace s @ ev \<and>
        persisted_after_each_send w v (sends_done s, msgs) ev = Some (sends_done s', msgs') \<and>
        map_of msgs' v \<noteq> None"
proof (induction w video u d vid tries_counter msgs s arbitrary: c' msgs' s' rule: send_retry_loop.induct)
  case (1 w video user_id data_to_send video_id tries_counter video_msgs s)
  note vid = \<open>video\<close> \<open>video_id = Some v\<close>
  show ?case
  proof (cases "running_reads s = 0")
    case True
    with "1.prems" show ?thesis
      by (simp add: send_retry_loop.simps)
  next
    case False
    let ?s0 = "s\<lparr>running_reads := running_reads s - 1\<rparr>"
    obtain r m1 s1 where ts: "try_send w video user_id data_to_send video_id video_msgs ?s0 = (r, m1, s1)"
      by (metis prod_cases3)
    from ts vid have "try_send w True user_id data_to_send (Some v) video_msgs ?s0 = (r, m1, s1)"
      by simp
    from try_send_video_checked[OF this "1.prems"(3)] obtain ev1 where
      ev1: "trace s1 = trace s @ ev1"
        "persisted_after_each_send w v (sends_done s, video_msgs) ev1 = Some (sends_done s1, m1)"
        "map_of m1 v \<noteq> None" by auto
    let ?t = "tries_after r tries_counter"
    consider (ok) "r = Success" | (stop) "r \<noteq> Success" "?t \<ge> SEND_FILE_TRIES_MAX"
      | (again) "r \<noteq> Success" "\<not> ?t \<ge> SEND_FILE_TRIES_MAX" by blast
    then show ?thesis
    proof cases
      case ok
      with False ts "1.prems" have "s' = s1" "msgs' = m1"
        by (simp_all add: send_retry_loop.simps)
      with ev1 show ?thesis by simp
    next
      case stop
      with False ts "1.prems" have e: "s' = s1\<lparr>trace := trace s1 @ [LogRetriesExceeded]\<rparr>" "msgs' = m1"
        by (simp_all add: send_retry_loop.simps)
      have "persisted_after_each_send w v (sends_done s, video_msgs) (ev1 @ [LogRetriesExceeded])
              = Some (sends_done s1, m1)"
        by (simp add: persisted_append[OF ev1(2)])
      with e ev1 show ?thesis by simp
    next
      case again
      let ?s2 = "s1\<lparr>trace := trace s1 @ [Wait DELAY_BETWEEN_RETRIES]\<rparr>"
      from again False ts "1.prems"
      have rec: "send_retry_loop w video user_id data_to_send video_id ?t m1 ?s2 = (c', msgs', s')"
        by (simp add: send_retry_loop.simps)
      from "1.IH"[OF False ts[symmetric] refl again(1) again(2) vid ev1(3) rec]
      obtain ev2 where ev2: "trace s' = trace ?s2 @ ev2"
        "persisted_after_each_send w v (sends_done ?s2, m1) ev2 = Some (sends_done s', msgs')"
        "map_of msgs' v \<noteq> None" by auto
      have "persisted_after_each_send w v (sends_done s, video_msgs)
              (ev1 @ (Wait DELAY_BETWEEN_RETRIES # ev2)) = Some (sends_done s', msgs')"
        using ev2(2) by (simp add: persisted_append[OF ev1(2)])
      moreover have "trace s' = trace s @ (ev1 @ (Wait DELAY_BETWEEN_RETRIES # ev2))"
        using ev1(1) ev2(1) by simp
      ultimately show ?thesis using ev2(3) by blast
    qed
  qed
qed

lemma send_text_or_video_checked:
  assumes "map_of msgs v \<noteq> None"
    and "send_text_or_video w True u d (Some v) msgs s = (msgs', s')"
  shows "\<exists>ev. trace s' = trace s @ ev \<and>
        persisted_after_each_send w v (sends_done s, msgs) ev = Some (sends_done s', msgs') \<and>
        map_of msgs' v \<noteq> None"
proof -
  obtain c m1 s1 where l: "send_retry_loop w True u d (Some v) 0 msgs s = (c, m1, s1)"
    by (metis prod_cases3)
  from send_retry_loop_checked[OF _ refl assms(1) l] obtain ev where
    ev: "trace s1 = trace s @ ev"
        "persisted_after_each_send w v (sends_done s, msgs) ev = Some (sends_done s1, m1)"
        "map_of m1 v \<noteq> None" by auto
  from l assms(2) have e: "msgs' = m1" "s' = s1\<lparr>trace := trace s1 @ [Wait DELAY_BETWEEN_USERS]\<rparr>"
    by (simp_all add: send_text_or_video_def)
  have "persisted_after_each_send w v (sends_done s, msgs) (ev @ [Wait DELAY_BETWEEN_USERS])
          = Some (sends_done s1, m1)"
    by (simp add: persisted_append[OF ev(2)])
  with e ev show ?thesis by simp
qed

lemma send_to_users_checked:
  "map_of msgs v \<noteq> None \<Longrightarrow>
   send_to_users w True users d (Some v) msgs s = (msgs', s') \<Longrightarrow>
   \<exists>ev. trace s' = trace s @ ev \<and>
        persisted_after_each_send w v (sends_done s, msgs) ev = Some (sends_done s', msgs')"
proof (induction users arbitrary: msgs s)
  case Nil
  then show ?case by simp
next
  case (Cons u users)
  show ?case
  proof (cases "running_reads s = 0")
    case True
    with Cons.prems show ?thesis by simp
  next
    case False
    let ?s0 = "s\<lparr>running_reads := running_reads s - 1\<rparr>"
    obtain m1 s1 where st: "send_text_or_video w True u d (Some v) msgs ?s0 = (m1, s1)"
      by (metis surj_pair)
    from send_text_or_video_checked[OF Cons.prems(1) st] obtain ev1 where
      ev1: "trace s1 = trace s @ ev1"
        "persisted_after_each_send w v (sends_done s, msgs) ev1 = Some (sends_done s1, m1)"
        "map_of m1 v \<noteq> None" by auto
    from False st Cons.prems(2) have "send_to_users w True users d (Some v) m1 s1 = (msgs', s')"
      by simp
    from Cons.IH[OF ev1(3) this] obtain ev2 where
      ev2: "trace s' = trace s1 @ ev2"
        "persisted_after_each_send w v (sends_done s1, m1) ev2 = Some (sends_done s', msgs')" by auto
    have "persisted_after_each_send w v (sends_done s, msgs) (ev1 @ ev2) = Some (sends_done s', msgs')"
      using ev2(2) by (simp add: persisted_append[OF ev1(2)])
    moreover have "trace s' = trace s @ (ev1 @ ev2)" using ev1(1) ev2(1) by simp
    ultimately show ?thesis by blast
  qed
qed

lemma process_video_trace:
  assumes "process_video cfg w p msgs s = Some (msgs', s')"
  shows "\<exists>v ds rest. gen_video_id msgs (draws s) = Some (v, ds) \<and>
           trace s' = trace s @ WriteVideoMessages (AList.update v \<lparr>path = p, messages = []\<rparr> msgs) # rest \<and>
           persisted_after_each_send w v
             (sends_done s, AList.update v \<lparr>path = p, messages = []\<rparr> msgs) rest
               = Some (sends_done s', msgs')"
proof -
  from assms obtain v ds where g: "gen_video_id msgs (draws s) = Some (v, ds)"
    by (auto simp: process_video_def split: option.splits)
  let ?m1 = "AList.update v \<lparr>path = p, messages = []\<rparr> msgs"
  let ?s1 = "s\<lparr>draws := ds, trace := trace s @ [WriteVideoMessages ?m1]\<rparr>"
  from assms g have u: "send_to_users w True (users_whitelist_video cfg) p (Some v) ?m1 ?s1 = (msgs', s')"
    by (simp add: process_video_def Let_def)
  have k: "map_of ?m1 v \<noteq> None" by (simp add: update_conv')
  from send_to_users_checked[OF k u] obtain ev where
    "trace s' = trace ?s1 @ ev"
    "persisted_after_each_send w v (sends_done ?s1, ?m1) ev = Some (sends_done s', msgs')" by auto
  with g show ?thesis by simp
qed

text \<open>
  C6. The id loop of a Video job ends only with an id of 12 characters of the alphabet
  \<open>A-Z a-z 0-9\<close> that is not a key of the database just loaded, and it does end as soon as
  one pass draws a free id. The record of the job is stored under that id, so every record
  already in the database is kept and the keys stay distinct.
\<close>

theorem video_id_not_in_database:
  "(\<forall>v rest. gen_video_id msgs ds = Some (v, rest) \<longrightarrow>
      v \<notin> fst ` set msgs \<and> length v = VIDEO_ID_LENGTH \<and> set v \<subseteq> set alphabet) \<and>
   (\<forall>k. (k + 1) * VIDEO_ID_LENGTH \<le> length ds \<and> candidate ds k \<notin> fst ` set msgs
      \<longrightarrow> gen_video_id msgs ds \<noteq> None) \<and>
   (\<forall>msgs' s'. process_video cfg w p msgs s = Some (msgs', s') \<longrightarrow>
      (\<exists>v rest tr. gen_video_id msgs (draws s) = Some (v, rest) \<and> v \<notin> fst ` set msgs \<and>
         trace s' = trace s @ WriteVideoMessages (AList.update v \<lparr>path = p, messages = []\<rparr> msgs) # tr \<and>
         (\<forall>k \<in> fst ` set msgs.
            map_of (AList.update v \<lparr>path = p, messages = []\<rparr> msgs) k = map_of msgs k) \<and>
         (distinct (map fst msgs)
            \<longrightarrow> distinct (map fst (AList.update v \<lparr>path = p, messages = []\<rparr> msgs)))))"
proof (intro conjI allI impI)
  fix v rest assume g: "gen_video_id msgs ds = Some (v, rest)"
  from gen_video_id_fresh[OF g] show "v \<notin> fst ` set msgs"
    by (simp add: map_of_eq_None_iff)
  from gen_video_id_fresh[OF g] show "length v = VIDEO_ID_LENGTH" by simp
  from gen_video_id_fresh[OF g] show "set v \<subseteq> set alphabet" by simp
next
  fix k assume "(k + 1) * VIDEO_ID_LENGTH \<le> length ds \<and> candidate ds k \<notin> fst ` set msgs"
  then show "gen_video_id msgs ds \<noteq> None"
    using gen_video_id_finds[of k ds msgs] by (simp add: map_of_eq_None_iff)
next
  fix msgs' s' assume pv: "process_video cfg w p msgs s = Some (msgs', s')"
  from process_video_trace[OF pv] obtain v rest tr where
    g: "gen_video_id msgs (draws s) = Some (v, rest)" and
    t: "trace s' = trace s @ WriteVideoMessages (AList.update v \<lparr>path = p, messages = []\<rparr> msgs) # tr"
    by blast
  from gen_video_id_fresh[OF g] have new: "v \<notin> fst ` set msgs"
    by (simp add: map_of_eq_None_iff)
  have keep: "\<forall>k \<in> fst ` set msgs.
      map_of (AList.update v \<lparr>path = p, messages = []\<rparr> msgs) k = map_of msgs k"
    using new by (auto simp: update_conv')
  have dist: "distinct (map fst msgs)
      \<longrightarrow> distinct (map fst (AList.update v \<lparr>path = p, messages = []\<rparr> msgs))"
    by (simp add: distinct_update)
  from g new t keep dist
  show "\<exists>v rest tr. gen_video_id msgs (draws s) = Some (v, rest) \<and> v \<notin> fst ` set msgs \<and>
         trace s' = trace s @ WriteVideoMessages (AList.update v \<lparr>path = p, messages = []\<rparr> msgs) # tr \<and>
         (\<forall>k \<in> fst ` set msgs.
            map_of (AList.update v \<lparr>path = p, messages = []\<rparr> msgs) k = map_of msgs k) \<and>
         (distinct (map fst msgs)
            \<longrightarrow> distinct (map fst (AList.update v \<lparr>path = p, messages = []\<rparr> msgs)))"
    by blast
qed

theorem video_id_not_in_database_witness:
  "gen_video_id example_db (draws example_sender) = Some (''BBBBBBBBBBBB'', []) \<and>
   candidate (draws example_sender) 0 \<in> fst ` set example_db \<and>
   candidate (draws example_sender) 1 \<notin> fst ` set example_db \<and>
   ''BBBBBBBBBBBB'' \<notin> fst ` set example_db \<and>
   length ''BBBBBBBBBBBB'' = VIDEO_ID_LENGTH \<and> set ''BBBBBBBBBBBB'' \<subseteq> set alphabet"
proof -
  have run: "gen_video_id example_db (draws example_sender) = Some (''BBBBBBBBBBBB'', [])"
    by (simp add: gen_video_id.simps example_db_def example_sender_def VIDEO_ID_LENGTH_def
          choices_def alphabet_def Let_def)
  have c0: "candidate (draws example_sender) 0 \<in> fst ` set example_db"
    by (simp add: candidate_def example_db_def example_sender_def VIDEO_ID_LENGTH_def
          choices_def alphabet_def)
  have c1: "candidate (draws example_sender) 1 \<notin> fst ` set example_db"
    by (simp add: candidate_def example_db_def example_sender_def VIDEO_ID_LENGTH_def
          choices_def alphabet_def)
  from video_id_not_in_database[of example_db "draws example_sender"] run c0 c1
  show ?thesis by blast
qed

lemma process_video_returns:
  assumes "(k + 1) * VIDEO_ID_LENGTH \<le> length (draws s)"
    and "map_of msgs (candidate (draws s) k) = None"
  shows "\<exists>msgs' s'. process_video cfg w p msgs s = Some (msgs', s')"
proof -
  from gen_video_id_finds[OF assms] obtain v ds where "gen_video_id msgs (draws s) = Some (v, ds)"
    by auto
  then show ?thesis
    by (simp add: process_video_def Let_def)
qed

text \<open>
  C7. A Video job whose id loop draws a free id in some pass does produce its result
  (the job returns whenever the id loop does), and every Video job that produces a result has done the following. It first writes
  the database holding the new record: its id, the source path and an empty message list;
  this write comes before every send of the job. After every \<open>send_video\<close> that returns a
  message id \<open>m \<ge> 0\<close> for a recipient \<open>u\<close>, the pair \<open>(u, m)\<close> is appended to that record
  and the whole database is written again, as the next event.
\<close>

theorem video_record_persisted:
  "(\<forall>k. (k + 1) * VIDEO_ID_LENGTH \<le> length (draws s) \<and> map_of msgs (candidate (draws s) k) = None
       \<longrightarrow> (\<exists>msgs' s'. process_video cfg w p msgs s = Some (msgs', s'))) \<and>
   (gen_video_id msgs (draws s) \<noteq> None \<longrightarrow> process_video cfg w p msgs s \<noteq> None) \<and>
   (\<forall>msgs' s'. process_video cfg w p msgs s = Some (msgs', s') \<longrightarrow>
      (\<exists>v ds rest.
           gen_video_id msgs (draws s) = Some (v, ds) \<and>
           map_of (AList.update v \<lparr>path = p, messages = []\<rparr> msgs) v = Some \<lparr>path = p, messages = []\<rparr> \<and>
           trace s' = trace s @ WriteVideoMessages (AList.update v \<lparr>path = p, messages = []\<rparr> msgs) # rest \<and>
           persisted_after_each_send w v
             (sends_done s, AList.update v \<lparr>path = p, messages = []\<rparr> msgs) rest
               = Some (sends_done s', msgs') \<and>
           (\<forall>u m d r st. map_of d v = Some r \<and> send_result w (sends_done st) = Sent m \<and> 0 \<le> m \<longrightarrow>
              try_send w True u p (Some v) d st =
                (Success, AList.update v (r\<lparr>messages := messages r @ [(u, m)]\<rparr>) d,
                 st\<lparr>sends_done := Suc (sends_done st),
                    trace := trace st @ [SendVideo u p (callback_data (Some v)),
                      WriteVideoMessages (AList.update v (r\<lparr>messages := messages r @ [(u, m)]\<rparr>) d)]\<rparr>))))"
proof (intro conjI allI impI)
  fix k
  assume "(k + 1) * VIDEO_ID_LENGTH \<le> length (draws s) \<and> map_of msgs (candidate (draws s) k) = None"
  then show "\<exists>msgs' s'. process_video cfg w p msgs s = Some (msgs', s')"
    using process_video_returns by blast
next
  assume "gen_video_id msgs (draws s) \<noteq> None"
  then show "process_video cfg w p msgs s \<noteq> None"
    by (auto simp add: process_video_def Let_def)
next
  fix msgs' s'
  assume pv: "process_video cfg w p msgs s = Some (msgs', s')"
  from process_video_trace[OF pv] obtain v ds rest where
    a: "gen_video_id msgs (draws s) = Some (v, ds)"
       "trace s' = trace s @ WriteVideoMessages (AList.update v \<lparr>path = p, messages = []\<rparr> msgs) # rest"
       "persisted_after_each_send w v
             (sends_done s, AList.update v \<lparr>path = p, messages = []\<rparr> msgs) rest
               = Some (sends_done s', msgs')" by blast
  have b: "map_of (AList.update v \<lparr>path = p, messages = []\<rparr> msgs) v = Some \<lparr>path = p, messages = []\<rparr>"
    by (simp add: update_conv')
  have c: "\<forall>u m d r st. map_of d v = Some r \<and> send_result w (sends_done st) = Sent m \<and> 0 \<le> m \<longrightarrow>
              try_send w True u p (Some v) d st =
                (Success, AList.update v (r\<lparr>messages := messages r @ [(u, m)]\<rparr>) d,
                 st\<lparr>sends_done := Suc (sends_done st),
                    trace := trace st @ [SendVideo u p (callback_data (Some v)),
                      WriteVideoMessages (AList.update v (r\<lparr>messages := messages r @ [(u, m)]\<rparr>) d)]\<rparr>)"
    by (simp add: try_send_def append_message_def Let_def)
  from a b c show "\<exists>v ds rest.
           gen_video_id msgs (draws s) = Some (v, ds) \<and>
           map_of (AList.update v \<lparr>path = p, messages = []\<rparr> msgs) v = Some \<lparr>path = p, messages = []\<rparr> \<and>
           trace s' = trace s @ WriteVideoMessages (AList.update v \<lparr>path = p, messages = []\<rparr> msgs) # rest \<and>
           persisted_after_each_send w v
             (sends_done s, AList.update v \<lparr>path = p, messages = []\<rparr> msgs) rest
               = Some (sends_done s', msgs') \<and>
           (\<forall>u m d r st. map_of d v = Some r \<and> send_result w (sends_done st) = Sent m \<and> 0 \<le> m \<longrightarrow>
              try_send w True u p (Some v) d st =
                (Success, AList.update v (r\<lparr>messages := messages r @ [(u, m)]\<rparr>) d,
                 st\<lparr>sends_done := Suc (sends_done st),
                    trace := trace st @ [SendVideo u p (callback_data (Some v)),
                      WriteVideoMessages (AList.update v (r\<lparr>messages := messages r @ [(u, m)]\<rparr>) d)]\<rparr>))"
    by blast
qed

theorem video_record_persisted_witness:
  "process_video example_config example_world ''/v/b.mp4'' example_db example_sender =
     Some ([(''AAAAAAAAAAAA'', \<lparr>path = ''/v/a.mp4'', messages = [(11, 5)]\<rparr>),
            (''BBBBBBBBBBBB'', \<lparr>path = ''/v/b.mp4'', messages = [(11, 101), (22, 102)]\<rparr>)],
           \<lparr>running_reads = 15, sends_done = 3, loads_done = 0, draws = [],
            trace =
              [WriteVideoMessages
                 [(''AAAAAAAAAAAA'', \<lparr>path = ''/v/a.mp4'', messages = [(11, 5)]\<rparr>),
                  (''BBBBBBBBBBBB'', \<lparr>path = ''/v/b.mp4'', messages = []\<rparr>)],
               SendVideo 11 ''/v/b.mp4'' ''ask_BBBBBBBBBBBB'', Wait 3,
               SendVideo 11 ''/v/b.mp4'' ''ask_BBBBBBBBBBBB'',
               WriteVideoMessages
                 [(''AAAAAAAAAAAA'', \<lparr>path = ''/v/a.mp4'', messages = [(11, 5)]\<rparr>),
                  (''BBBBBBBBBBBB'', \<lparr>path = ''/v/b.mp4'', messages = [(11, 101)]\<rparr>)],
               Wait 1, SendVideo 22 ''/v/b.mp4'' ''ask_BBBBBBBBBBBB'',
               WriteVideoMessages
                 [(''AAAAAAAAAAAA'', \<lparr>path = ''/v/a.mp4'', messages = [(11, 5)]\<rparr>),
                  (''BBBBBBBBBBBB'', \<lparr>path = ''/v/b.mp4'', messages = [(11, 101), (22, 102)]\<rparr>)],
               Wait 1]\<rparr>) \<and>
   (2 :: nat) * VIDEO_ID_LENGTH \<le> length (draws example_sender) \<and>
   map_of example_db (candidate (draws example_sender) 1) = None \<and>
   (\<exists>msgs' s'. process_video example_config example_world ''/v/b.mp4'' example_db example_sender
        = Some (msgs', s')) \<and>
   gen_video_id example_db (draws example_sender) = Some (''BBBBBBBBBBBB'', []) \<and>
   process_video example_config example_world ''/v/b.mp4'' example_db example_sender \<noteq> None \<and>
   (\<exists>rest. persisted_after_each_send example_world ''BBBBBBBBBBBB''
        (0, AList.update ''BBBBBBBBBBBB'' \<lparr>path = ''/v/b.mp4'', messages = []\<rparr> example_db) rest
      = Some (3, [(''AAAAAAAAAAAA'', \<lparr>path = ''/v/a.mp4'', messages = [(11, 5)]\<rparr>),
            (''BBBBBBBBBBBB'', \<lparr>path = ''/v/b.mp4'', messages = [(11, 101), (22, 102)]\<rparr>)]))"
proof -
  have g: "gen_video_id example_db (draws example_sender) = Some (''BBBBBBBBBBBB'', [])"
    by (simp add: gen_video_id.simps example_db_def example_sender_def VIDEO_ID_LENGTH_def
          choices_def alphabet_def Let_def)
  have run: "process_video example_config example_world ''/v/b.mp4'' example_db example_sender =
     Some ([(''AAAAAAAAAAAA'', \<lparr>path = ''/v/a.mp4'', messages = [(11, 5)]\<rparr>),
            (''BBBBBBBBBBBB'', \<lparr>path = ''/v/b.mp4'', messages = [(11, 101), (22, 102)]\<rparr>)],
           \<lparr>running_reads = 15, sends_done = 3, loads_done = 0, draws = [],
            trace =
              [WriteVideoMessages
                 [(''AAAAAAAAAAAA'', \<lparr>path = ''/v/a.mp4'', messages = [(11, 5)]\<rparr>),
                  (''BBBBBBBBBBBB'', \<lparr>path = ''/v/b.mp4'', messages = []\<rparr>)],
               SendVideo 11 ''/v/b.mp4'' ''ask_BBBBBBBBBBBB'', Wait 3,
               SendVideo 11 ''/v/b.mp4'' ''ask_BBBBBBBBBBBB'',
               WriteVideoMessages
                 [(''AAAAAAAAAAAA'', \<lparr>path = ''/v/a.mp4'', messages = [(11, 5)]\<rparr>),
                  (''BBBBBBBBBBBB'', \<lparr>path = ''/v/b.mp4'', messages = [(11, 101)]\<rparr>)],
               Wait 1, SendVideo 22 ''/v/b.mp4'' ''ask_BBBBBBBBBBBB'',
               WriteVideoMessages
                 [(''AAAAAAAAAAAA'', \<lparr>path = ''/v/a.mp4'', messages = [(11, 5)]\<rparr>),
                  (''BBBBBBBBBBBB'', \<lparr>path = ''/v/b.mp4'', messages = [(11, 101), (22, 102)]\<rparr>)],
               Wait 1]\<rparr>)"
    unfolding process_video_def g
    by (simp add: example_config_def example_world_def example_db_def example_sender_def
          send_text_or_video_def send_retry_loop.simps try_send_def tries_after_def
          append_message_def callback_data_def SEND_FILE_TRIES_MAX_def
          DELAY_BETWEEN_RETRIES_def DELAY_BETWEEN_USERS_def)
  note vrp = video_record_persisted[of example_sender example_db example_config example_world
      "''/v/b.mp4''"]
  have f1: "(2 :: nat) * VIDEO_ID_LENGTH \<le> length (draws example_sender)"
    by (simp add: example_sender_def VIDEO_ID_LENGTH_def)
  have f2: "map_of example_db (candidate (draws example_sender) 1) = None"
    by (simp add: candidate_def example_db_def example_sender_def VIDEO_ID_LENGTH_def
          choices_def alphabet_def)
  from vrp[THEN conjunct1, rule_format, of 1] f1 f2
  have f3: "\<exists>msgs' s'. process_video example_config example_world ''/v/b.mp4'' example_db
        example_sender = Some (msgs', s')"
    by simp
  from vrp[THEN conjunct2, THEN conjunct1] g
  have f4: "process_video example_config example_world ''/v/b.mp4'' example_db example_sender \<noteq> None"
    by simp
  from vrp[THEN conjunct2, THEN conjunct2, rule_format, OF run] obtain v ds rest where
    v: "gen_video_id example_db (draws example_sender) = Some (v, ds)" and
    c: "persisted_after_each_send example_world v
         (sends_done example_sender,
          AList.update v \<lparr>path = ''/v/b.mp4'', messages = []\<rparr> example_db) rest
        = Some (sends_done \<lparr>running_reads = 15, sends_done = 3, loads_done = 0, draws = [],
            trace =
              [WriteVideoMessages
                 [(''AAAAAAAAAAAA'', \<lparr>path = ''/v/a.mp4'', messages = [(11, 5)]\<rparr>),
                  (''BBBBBBBBBBBB'', \<lparr>path = ''/v/b.mp4'', messages = []\<rparr>)],
               SendVideo 11 ''/v/b.mp4'' ''ask_BBBBBBBBBBBB'', Wait 3,
               SendVideo 11 ''/v/b.mp4'' ''ask_BBBBBBBBBBBB'',
               WriteVideoMessages
                 [(''AAAAAAAAAAAA'', \<lparr>path = ''/v/a.mp4'', messages = [(11, 5)]\<rparr>),
                  (''BBBBBBBBBBBB'', \<lparr>path = ''/v/b.mp4'', messages = [(11, 101)]\<rparr>)],
               Wait 1, SendVideo 22 ''/v/b.mp4'' ''ask_BBBBBBBBBBBB'',
               WriteVideoMessages
                 [(''AAAAAAAAAAAA'', \<lparr>path = ''/v/a.mp4'', messages = [(11, 5)]\<rparr>),
                  (''BBBBBBBBBBBB'', \<lparr>path = ''/v/b.mp4'', messages = [(11, 101), (22, 102)]\<rparr>)],
               Wait 1]\<rparr>,
            [(''AAAAAAAAAAAA'', \<lparr>path = ''/v/a.mp4'', messages = [(11, 5)]\<rparr>),
             (''BBBBBBBBBBBB'', \<lparr>path = ''/v/b.mp4'', messages = [(11, 101), (22, 102)]\<rparr>)])"
    by blast
  from v g have "v = ''BBBBBBBBBBBB''" by simp
  with c have "persisted_after_each_send example_world ''BBBBBBBBBBBB''
        (0, AList.update ''BBBBBBBBBBBB'' \<lparr>path = ''/v/b.mp4'', messages = []\<rparr> example_db) rest
      = Some (3, [(''AAAAAAAAAAAA'', \<lparr>path = ''/v/a.mp4'', messages = [(11, 5)]\<rparr>),
            (''BBBBBBBBBBBB'', \<lparr>path = ''/v/b.mp4'', messages = [(11, 101), (22, 102)]\<rparr>)])"
    by (simp add: example_sender_def)
  with run f1 f2 f3 f4 g show ?thesis by blast
qed

subsection \<open>Unknown jobs\<close>

lemma sending_thread_loop_next_item:
  "sending_thread_loop cfg w pre s = (BlockedOnQueue, [], s') \<Longrightarrow>
     sending_thread_loop cfg w (pre @ item # q) s
       = sending_thread_loop cfg w (item # q) (s'\<lparr>running_reads := Suc (running_reads s')\<rparr>)"
proof (induction pre arbitrary: s)
  case Nil
  then have r: "running_reads s \<noteq> 0" and s': "s' = s\<lparr>running_reads := running_reads s - 1\<rparr>"
    by (auto split: if_splits)
  from r s' have "s'\<lparr>running_reads := Suc (running_reads s')\<rparr> = s" by simp
  then show ?case by simp
next
  case (Cons i pre)
  from Cons.prems have r: "running_reads s \<noteq> 0" by (auto split: if_splits)
  from Cons.prems r obtain d where i: "i = Some d" by (cases i) auto
  let ?s1 = "s\<lparr>running_reads := running_reads s - 1, loads_done := Suc (loads_done s)\<rparr>"
  let ?m = "load_result w (loads_done s)"
  show ?case
  proof (cases "startswith d ''video_''")
    case True
    with Cons.prems r i obtain m2 s2 where
      pv: "process_video cfg w (drop 6 d) ?m ?s1 = Some (m2, s2)"
      by (auto simp: Let_def split: option.splits)
    with Cons.prems r i True have "sending_thread_loop cfg w pre s2 = (BlockedOnQueue, [], s')"
      by (simp add: Let_def)
    from Cons.IH[OF this] pv r i True show ?thesis by (simp add: Let_def)
  next
    case False
    note nv = this
    show ?thesis
    proof (cases "startswith d ''text_''")
      case True
      obtain m2 s2 where pt: "process_text cfg w (drop 5 d) ?m ?s1 = (m2, s2)"
        by (metis surj_pair)
      with Cons.prems r i nv True have "sending_thread_loop cfg w pre s2 = (BlockedOnQueue, [], s')"
        by (simp add: Let_def)
      from Cons.IH[OF this] pt r i nv True show ?thesis by (simp add: Let_def)
    next
      case False
      with Cons.prems r i nv show ?thesis by (simp add: Let_def)
    qed
  qed
qed

text \<open>
  C10. When the thread has handled the items \<open>pre\<close> and then takes from the queue a string
  that starts neither with \<open>video_\<close> nor with \<open>text_\<close>, the loop function returns: nothing
  is sent for that item, and the items \<open>q\<close> queued after it are left in the queue and never
  handled, so the trace is the one of \<open>pre\<close> alone.
\<close>

theorem unknown_job_ends_thread:
  assumes "sending_thread_loop cfg w pre s = (BlockedOnQueue, [], s')"
    and "\<not> startswith d ''video_''" and "\<not> startswith d ''text_''"
  shows "sending_thread_loop cfg w (pre @ Some d # q) s
           = (Returned, q, s'\<lparr>loads_done := Suc (loads_done s')\<rparr>) \<and>
         trace (snd (snd (sending_thread_loop cfg w (pre @ Some d # q) s))) = trace s' \<and>
         sends_done (snd (snd (sending_thread_loop cfg w (pre @ Some d # q) s))) = sends_done s'"
proof -
  have "sending_thread_loop cfg w (pre @ Some d # q) s
          = sending_thread_loop cfg w (Some d # q) (s'\<lparr>running_reads := Suc (running_reads s')\<rparr>)"
    by (rule sending_thread_loop_next_item[OF assms(1)])
  also have "\<dots> = (Returned, q, s'\<lparr>loads_done := Suc (loads_done s')\<rparr>)"
    using assms(2,3) by (simp add: Let_def)
  finally show ?thesis by simp
qed

theorem unknown_job_ends_thread_witness:
  "sending_thread_loop example_config example_world [Some ''text_hello''] example_sender
     = (BlockedOnQueue, [],
        \<lparr>running_reads = 15, sends_done = 2, loads_done = 1,
         draws = [0, 0, 0, 0, 0, 0, 0, 0, 0, 0, 0, 0, 1, 1, 1, 1, 1, 1, 1, 1, 1, 1, 1, 1],
         trace = [SendMessage 11 ''hello'', Wait 3, SendMessage 11 ''hello'', Wait 1]\<rparr>) \<and>
   \<not> startswith ''bogus'' ''video_'' \<and> \<not> startswith ''bogus'' ''text_'' \<and>
   sending_thread_loop example_config example_world
       ([Some ''text_hello''] @ Some ''bogus'' # [Some ''text_later'']) example_sender
     = (Returned, [Some ''text_later''],
        \<lparr>running_reads = 15, sends_done = 2, loads_done = 2,
         draws = [0, 0, 0, 0, 0, 0, 0, 0, 0, 0, 0, 0, 1, 1, 1, 1, 1, 1, 1, 1, 1, 1, 1, 1],
         trace = [SendMessage 11 ''hello'', Wait 3, SendMessage 11 ''hello'', Wait 1]\<rparr>)"
proof -
  have run: "sending_thread_loop example_config example_world [Some ''text_hello''] example_sender
     = (BlockedOnQueue, [],
        \<lparr>running_reads = 15, sends_done = 2, loads_done = 1,
         draws = [0, 0, 0, 0, 0, 0, 0, 0, 0, 0, 0, 0, 1, 1, 1, 1, 1, 1, 1, 1, 1, 1, 1, 1],
         trace = [SendMessage 11 ''hello'', Wait 3, SendMessage 11 ''hello'', Wait 1]\<rparr>)"
    by (simp add: example_config_def example_world_def example_sender_def startswith_def
          process_text_def send_text_or_video_def send_retry_loop.simps try_send_def tries_after_def
          SEND_FILE_TRIES_MAX_def DELAY_BETWEEN_RETRIES_def DELAY_BETWEEN_USERS_def)
  have nv: "\<not> startswith ''bogus'' ''video_''" and nt: "\<not> startswith ''bogus'' ''text_''"
    by (simp_all add: startswith_def)
  from unknown_job_ends_thread[OF run nv nt, of "[Some ''text_later'']"] run nv nt
  show ?thesis by simp
qed

section \<open>Properties of the recorder\<close>

subsection \<open>stop\<close>

lemma reterminate_events:
  "reterminate n raises k ps tr = (ps', tr') \<Longrightarrow>
     \<exists>j. tr' = tr @ replicate j Terminate"
proof (induction n arbitrary: k ps tr)
  case 0
  then show ?case by simp
next
  case (Suc n)
  obtain alive ps1 where p: "poll ps = (alive, ps1)" by (metis surj_pair)
  show ?case
  proof (cases "alive \<and> \<not> raises k")
    case True
    with Suc.prems p have "reterminate n raises (Suc k) ps1 (tr @ [Terminate]) = (ps', tr')" by simp
    from Suc.IH[OF this] obtain j where "tr' = (tr @ [Terminate]) @ replicate j Terminate" by blast
    then have "tr' = tr @ replicate (Suc j) Terminate" by simp
    then show ?thesis by blast
  next
    case False
    with Suc.prems p have "tr' = tr \<or> tr' = tr @ [Terminate]" by (auto split: if_splits)
    then show ?thesis
    proof
      assume "tr' = tr" then have "tr' = tr @ replicate 0 Terminate" by simp
      then show ?thesis by blast
    next
      assume "tr' = tr @ [Terminate]" then have "tr' = tr @ replicate 1 Terminate" by simp
      then show ?thesis by blast
    qed
  qed
qed

lemma graceful_stop_events:
  assumes "graceful_stop e tr = (raised, ps, tr')"
  shows "\<exists>ev. tr' = tr @ ev \<and> HardKill \<notin> set ev \<and> (\<forall>d. Launch d \<notin> set ev)"
proof -
  obtain alive ps0 where p: "poll (polls e) = (alive, ps0)" by (metis surj_pair)
  show ?thesis
  proof (cases "alive \<and> \<not> terminate_raises e 0 \<and> wait_result e = TimeoutExpired")
    case True
    obtain ps1 tr1 where rt: "reterminate 4 (terminate_raises e) 1 ps0 (tr @ [Terminate, WaitProcess]) = (ps1, tr1)"
      by (metis surj_pair)
    from reterminate_events[OF rt] obtain j where
      tr1: "tr1 = (tr @ [Terminate, WaitProcess]) @ replicate j Terminate" by blast
    obtain alive1 ps2 where p1: "poll ps1 = (alive1, ps2)" by (metis surj_pair)
    from assms p True rt p1 have "tr' = tr1 @ [Kill] \<or> tr' = tr1"
      by (auto simp: graceful_stop_def split: if_splits)
    then show ?thesis
    proof
      assume "tr' = tr1 @ [Kill]"
      with tr1 have "tr' = tr @ ([Terminate, WaitProcess] @ replicate j Terminate @ [Kill])" by simp
      moreover have "HardKill \<notin> set ([Terminate, WaitProcess] @ replicate j Terminate @ [Kill])" by auto
      moreover have "\<forall>d. Launch d \<notin> set ([Terminate, WaitProcess] @ replicate j Terminate @ [Kill])" by auto
      ultimately show ?thesis by blast
    next
      assume "tr' = tr1"
      with tr1 have "tr' = tr @ ([Terminate, WaitProcess] @ replicate j Terminate)" by simp
      moreover have "HardKill \<notin> set ([Terminate, WaitProcess] @ replicate j Terminate)" by auto
      moreover have "\<forall>d. Launch d \<notin> set ([Terminate, WaitProcess] @ replicate j Terminate)" by auto
      ultimately show ?thesis by blast
    qed
  next
    case False
    with assms p have "\<exists>ev \<in> {[], [Terminate], [Terminate, WaitProcess]}. tr' = tr @ ev"
      by (cases "wait_result e") (auto simp: graceful_stop_def split: if_splits)
    then show ?thesis by auto
  qed
qed

lemma graceful_stop_raised:
  "graceful_stop e tr = (raised, ps, tr') \<Longrightarrow> raised \<Longrightarrow> kill_raises e"
  by (auto simp: graceful_stop_def split: prod.splits if_splits wait_result.splits)

lemma hard_kill_all:
  "\<forall>j<n. kr (i + j) = KillerExited \<Longrightarrow> hard_kill n kr i tr = (False, tr @ replicate n HardKill)"
proof (induction n arbitrary: i tr)
  case 0
  then show ?case by simp
next
  case (Suc n)
  from Suc.prems have k: "kr i = KillerExited" by (metis add.right_neutral zero_less_Suc)
  from Suc.prems have "\<forall>j<n. kr (Suc i + j) = KillerExited" by (metis Suc_less_eq add_Suc_shift)
  from Suc.IH[OF this] k show ?case by (simp add: replicate_app_Cons_same)
qed


lemma count_list_replicate_same: "count_list (replicate n x) x = n"
  by (induction n) simp_all

lemma stop_hard_kills:
  assumes "has_process r" and "\<not> kill_raises e" and "\<forall>i<3. killer e i = KillerExited"
  shows "count_list (rtrace (snd (stop from_self e r))) HardKill = count_list (rtrace r) HardKill + 3"
proof -
  obtain raised ps tr where g: "graceful_stop e (rtrace r) = (raised, ps, tr)" by (metis prod_cases3)
  from graceful_stop_raised[OF g] assms(2) have nr: "\<not> raised" by blast
  from graceful_stop_events[OF g] obtain ev where ev: "tr = rtrace r @ ev" "HardKill \<notin> set ev" by blast
  have hk: "hard_kill 3 (killer e) 0 tr = (False, tr @ replicate 3 HardKill)"
    by (rule hard_kill_all) (simp add: assms(3))
  have "rtrace (snd (stop from_self e r)) = tr @ replicate 3 HardKill"
    using assms(1) g nr hk by (simp add: stop_def Let_def)
  with ev show ?thesis by (simp add: count_list_0_iff count_list_replicate_same)
qed

text \<open>
  C2, as amended. A call of \<open>stop\<close> on a recorder without a subprocess handle returns at
  once and does not run the kill command. A call on a recorder with a handle runs the kill
  command exactly 3 times, whatever the graceful termination did (process already gone,
  ended in time, timeout and escalation, error of \<open>terminate\<close> or \<open>wait\<close>) and whether or not
  the final wait for the process ends, provided that neither \<open>kill()\<close> nor a run of the kill
  command itself raises.
\<close>

theorem stop_hard_kill_count:
  "(\<not> has_process r \<longrightarrow> stop from_self e r = (StopReturned, r)) \<and>
   (has_process r \<and> \<not> kill_raises e \<and> (\<forall>i<3. killer e i = KillerExited) \<longrightarrow>
      count_list (rtrace (snd (stop from_self e r))) HardKill = count_list (rtrace r) HardKill + 3)"
  using stop_hard_kills[of r e from_self] by (simp add: stop_def)

theorem stop_hard_kill_count_witness:
  "has_process recording_recorder \<and> \<not> kill_raises stubborn_env \<and>
   killer stubborn_env 0 = KillerExited \<and> killer stubborn_env 1 = KillerExited \<and>
   killer stubborn_env 2 = KillerExited \<and>
   stop False stubborn_env recording_recorder =
     (StopReturned,
      \<lparr>recording = False, attempts = 0, has_process = False, process_out_capture_enabled = False,
       rtrace = [Launch ''/out/a'', Terminate, WaitProcess, Terminate, Terminate, Terminate,
                 Terminate, Kill, HardKill, HardKill, HardKill]\<rparr>) \<and>
   count_list (rtrace (snd (stop False stubborn_env recording_recorder))) HardKill
     = count_list (rtrace recording_recorder) HardKill + 3 \<and>
   \<not> has_process idle_recorder \<and> stop False stubborn_env idle_recorder = (StopReturned, idle_recorder)"
proof -
  have h: "has_process recording_recorder \<and> \<not> kill_raises stubborn_env \<and>
           (\<forall>i<3. killer stubborn_env i = KillerExited)"
    by (simp add: recording_recorder_def stubborn_env_def)
  have i: "\<not> has_process idle_recorder" by (simp add: idle_recorder_def)
  have run: "stop False stubborn_env recording_recorder =
     (StopReturned,
      \<lparr>recording = False, attempts = 0, has_process = False, process_out_capture_enabled = False,
       rtrace = [Launch ''/out/a'', Terminate, WaitProcess, Terminate, Terminate, Terminate,
                 Terminate, Kill, HardKill, HardKill, HardKill]\<rparr>)"
    by (simp add: stop_def graceful_stop_def poll_def recording_recorder_def stubborn_env_def
          numeral_2_eq_2 numeral_3_eq_3 eval_nat_numeral)
  from stop_hard_kill_count[of recording_recorder False stubborn_env]
       stop_hard_kill_count[of idle_recorder False stubborn_env] h i run
  have "count_list (rtrace (snd (stop False stubborn_env recording_recorder))) HardKill
          = count_list (rtrace recording_recorder) HardKill + 3"
    and "stop False stubborn_env idle_recorder = (StopReturned, idle_recorder)"
    by blast+
  moreover have "killer stubborn_env 0 = KillerExited" "killer stubborn_env 1 = KillerExited"
    "killer stubborn_env 2 = KillerExited"
    by (simp_all add: stubborn_env_def)
  ultimately show ?thesis using h i run by blast
qed

text \<open>
  The claim as stated fails: \<open>stop\<close> called when no subprocess was started (as \<open>main\<close> does on
  exit) returns from its first line and the kill command is not run at all.
\<close>

theorem stop_without_process_no_hard_kill:
  "\<not> count_list (rtrace (snd (stop False quiet_env idle_recorder))) HardKill = 3"
  by (simp add: stop_def idle_recorder_def)

subsection \<open>start\<close>









section \<open>Properties of the main loop\<close>

subsection \<open>The interrupt counter\<close>

lemma day_of:
  fixes q d :: int
  shows "(q * 86400 \<le> d \<and> d \<le> q * 86400 + 86400 - 1) \<longleftrightarrow> d div 86400 = q"
proof
  assume a: "q * 86400 \<le> d \<and> d \<le> q * 86400 + 86400 - 1"
  define r where "r = d - q * 86400"
  with a have "0 \<le> r" "r < 86400" "d = r + q * 86400" by auto
  then show "d div 86400 = q" by simp
next
  assume "d div 86400 = q"
  then have "q * 86400 = d - d mod 86400" by (simp add: minus_mod_eq_div_mult)
  moreover have "0 \<le> d mod 86400" "d mod 86400 < 86400" by simp_all
  ultimately show "q * 86400 \<le> d \<and> d \<le> q * 86400 + 86400 - 1" by linarith
qed

lemma midnight_interval:
  fixes t d :: int
  shows "(t - t mod 86400 \<le> d \<and> d \<le> t - t mod 86400 + 86400 - 1) \<longleftrightarrow> d div 86400 = t div 86400"
proof -
  have m: "t - t mod 86400 = (t div 86400) * 86400" by (simp add: minus_mod_eq_div_mult)
  show ?thesis unfolding m by (rule day_of)
qed

lemma count_interrupt_eq:
  "count_interrupt last_dt today num = (if last_dt div 86400 = today div 86400 then num + 1 else 1)"
proof -
  have "(last_dt < today - today mod 86400 \<or> last_dt > today - today mod 86400 + 86400 - 1)
          \<longleftrightarrow> last_dt div 86400 \<noteq> today div 86400"
    using midnight_interval[of today last_dt] by auto
  then show ?thesis by (simp add: count_interrupt_def Let_def)
qed

text \<open>
  C8. On a real door event (sensor open, no pause, no test trigger, no session recording)
  the count written to the counter file, and put in the message, is 1 when the local
  datetime of the stored timestamp lies outside the interval from local midnight \<open>M\<close> of
  today to \<open>M + 1 day - 1 second\<close>, and the stored count plus 1 otherwise. \<open>M\<close> is the
  multiple of a day with \<open>M \<le> today < M + 1 day\<close>, so the interval holds exactly the
  datetimes of today's date.
\<close>

theorem interrupt_counter_update:
  assumes "\<not> test_flag i" and "door_opened i" and "\<not> pause_requested i" and "\<not> main_recording s"
    and "fromtimestamp i (last_interrupt_timestamp (counter_file i)) = Some last_dt"
    and "M = today_counted i - today_counted i mod 86400"
    and "n = (if M \<le> last_dt \<and> last_dt \<le> M + 86400 - 1 then interrupts_num (counter_file i) + 1 else 1)"
  shows "M mod 86400 = 0 \<and> M \<le> today_counted i \<and> today_counted i < M + 86400 \<and>
         ((M \<le> last_dt \<and> last_dt \<le> M + 86400 - 1) \<longleftrightarrow> last_dt div 86400 = today_counted i div 86400) \<and>
         door_event cfg i s =
           Some (s\<lparr>effects := effects s @ [WriteInterrupts (time_event i) n],
                   queue := queue s @ [''text_'' @ event_text cfg (today_event i) @ ''\<newline>\<newline>''
                     @ event_text_start_time cfg (datetime_started s) @ ''\<newline>''
                     @ event_text_interrupts_num cfg n]\<rparr>) \<and>
         start_block cfg i (resume_block i s) =
           start_recording cfg i
             ((resume_block i s)\<lparr>effects := effects s @ [WriteInterrupts (time_event i) n],
                   queue := queue s @ [''text_'' @ event_text cfg (today_event i) @ ''\<newline>\<newline>''
                     @ event_text_start_time cfg (datetime_started (resume_block i s)) @ ''\<newline>''
                     @ event_text_interrupts_num cfg n]\<rparr>)"
proof -
  have "0 \<le> today_counted i mod 86400" "today_counted i mod 86400 < 86400" by simp_all
  moreover have "M mod 86400 = 0" using assms(6) by (simp add: minus_mod_eq_div_mult)
  ultimately have M: "M mod 86400 = 0 \<and> M \<le> today_counted i \<and> today_counted i < M + 86400"
    using assms(6) by linarith
  have iv: "(M \<le> last_dt \<and> last_dt \<le> M + 86400 - 1) \<longleftrightarrow> last_dt div 86400 = today_counted i div 86400"
    unfolding assms(6) by (rule midnight_interval)
  have n: "count_interrupt last_dt (today_counted i) (interrupts_num (counter_file i)) = n"
    using iv assms(7) by (simp add: count_interrupt_eq)
  have de: "door_event cfg i s' =
           Some (s'\<lparr>effects := effects s' @ [WriteInterrupts (time_event i) n],
                   queue := queue s' @ [''text_'' @ event_text cfg (today_event i) @ ''\<newline>\<newline>''
                     @ event_text_start_time cfg (datetime_started s') @ ''\<newline>''
                     @ event_text_interrupts_num cfg n]\<rparr>)" for s'
    using assms(5) n by (simp add: door_event_def Let_def)
  have r: "\<not> main_recording (resume_block i s)" "effects (resume_block i s) = effects s"
    "queue (resume_block i s) = queue s"
    using assms(4) by (simp_all add: resume_block_def Let_def)
  have sb: "start_block cfg i (resume_block i s) =
           start_recording cfg i
             ((resume_block i s)\<lparr>effects := effects s @ [WriteInterrupts (time_event i) n],
                   queue := queue s @ [''text_'' @ event_text cfg (today_event i) @ ''\<newline>\<newline>''
                     @ event_text_start_time cfg (datetime_started (resume_block i s)) @ ''\<newline>''
                     @ event_text_interrupts_num cfg n]\<rparr>)"
    using assms(1,2,3) r de[of "resume_block i s"] by (simp add: start_block_def)
  from M iv de[of s] sb show ?thesis by blast
qed

theorem interrupt_counter_update_witness:
  "\<not> test_flag door_opens \<and> door_opened door_opens \<and> \<not> pause_requested door_opens \<and>
   \<not> main_recording idle_main \<and>
   fromtimestamp door_opens (last_interrupt_timestamp (counter_file door_opens)) = Some 8653600 \<and>
   (8640000 :: int) = today_counted door_opens - today_counted door_opens mod 86400 \<and>
   (5 :: int) = (if (8640000 :: int) \<le> 8653600 \<and> (8653600 :: int) \<le> 8640000 + 86400 - 1
                 then interrupts_num (counter_file door_opens) + 1 else 1) \<and>
   door_event example_main_config door_opens idle_main =
     Some (idle_main\<lparr>effects := [WriteInterrupts 8656400 5],
                      queue := [''text_Door opened\<newline>\<newline>Running\<newline>Today: 5'']\<rparr>)"
proof -
  have h1: "\<not> test_flag door_opens" and h2: "door_opened door_opens"
    and h3: "\<not> pause_requested door_opens"
    by (simp_all add: door_opens_def)
  have h4: "\<not> main_recording idle_main" by (simp add: idle_main_def)
  have h5: "fromtimestamp door_opens (last_interrupt_timestamp (counter_file door_opens)) = Some 8653600"
    by (simp add: door_opens_def local_time_def)
  have h6: "(8640000 :: int) = today_counted door_opens - today_counted door_opens mod 86400"
    by (simp add: door_opens_def)
  have h7: "(5 :: int) = (if (8640000 :: int) \<le> 8653600 \<and> (8653600 :: int) \<le> 8640000 + 86400 - 1
                 then interrupts_num (counter_file door_opens) + 1 else 1)"
    by (simp add: door_opens_def)
  have "door_event example_main_config door_opens idle_main =
     Some (idle_main\<lparr>effects := [WriteInterrupts 8656400 5],
                      queue := [''text_Door opened\<newline>\<newline>Running\<newline>Today: 5'']\<rparr>)"
    using interrupt_counter_update[OF h1 h2 h3 h4 h5 h6 h7, of example_main_config]
    by (simp add: door_opens_def idle_main_def example_main_config_def)
  with h1 h2 h3 h4 h5 h6 h7 show ?thesis by blast
qed

subsection \<open>The grace period\<close>

lemma resume_block_keeps:
  "main_recording (resume_block i s) = main_recording s \<and>
   door_closed_timer (resume_block i s) = door_closed_timer s \<and>
   light (resume_block i s) = light s \<and> the_recorder (resume_block i s) = the_recorder s \<and>
   queue (resume_block i s) = queue s \<and> output_dir (resume_block i s) = output_dir s \<and>
   files_sent (resume_block i s) = files_sent s"
  by (simp add: resume_block_def Let_def)

lemma start_block_skipped:
  "main_recording s \<Longrightarrow> start_block cfg i s = (Continues, s)"
  by (simp add: start_block_def)

lemma send_files_block_keeps:
  assumes "send_files_block i s = (e, s')"
  shows "main_recording s' = main_recording s \<and> door_closed_timer s' = door_closed_timer s \<and>
         light s' = light s \<and> the_recorder s' = the_recorder s \<and>
         (\<exists>vs. queue s' = queue s @ vs)"
proof (cases "output_dir s")
  case None
  with assms show ?thesis by (simp add: send_files_block_def)
next
  case (Some dir)
  show ?thesis
  proof (cases "dir_files i dir")
    case None
    with assms Some show ?thesis by (simp add: send_files_block_def split: if_splits)
  next
    case (Some listed)
    show ?thesis
    proof (cases "unsent_files listed (files_sent s)")
      case Nil
      with assms \<open>output_dir s = Some dir\<close> Some show ?thesis
        by (simp add: send_files_block_def split: if_splits)
    next
      case (Cons f fs)
      with assms \<open>output_dir s = Some dir\<close> Some show ?thesis
        by (cases "getsize i (path_join dir f)")
           (auto simp: send_files_block_def Let_def split: if_splits)
    qed
  qed
qed

lemma tick_while_recording:
  "main_recording s \<Longrightarrow>
   tick cfg i s =
     (case stop_block cfg i (resume_block i s) of
        (Continues, s2) \<Rightarrow> send_files_block i (cancel_block i s2)
      | (e, s2) \<Rightarrow> (e, s2))"
  by (simp add: tick_def start_block_skipped resume_block_keeps)





lemma tick_cancels:
  assumes "door_opened i" and "main_recording s"
    and "\<not> pause_requested i \<or> door_closed_timer s = 0 \<or>
         \<not> time_grace i - door_closed_timer s > record_extra cfg"
    and "tick cfg i s = (e, s')"
  shows "door_closed_timer s' = 0 \<and> main_recording s' \<and> light s' = light s \<and>
         the_recorder s' = the_recorder s"
proof -
  let ?r = "resume_block i s"
  have "stop_block cfg i ?r = (Continues, ?r) \<or>
        stop_block cfg i ?r = (Continues, ?r\<lparr>door_closed_timer := time_grace i\<rparr>)"
    using assms(1,3) by (auto simp: stop_block_def resume_block_keeps)
  then obtain t where sb: "stop_block cfg i ?r = (Continues, ?r\<lparr>door_closed_timer := t\<rparr>)"
  proof
    assume "stop_block cfg i ?r = (Continues, ?r)"
    then have "stop_block cfg i ?r = (Continues, ?r\<lparr>door_closed_timer := door_closed_timer ?r\<rparr>)"
      by simp
    then show ?thesis by (rule that)
  next
    assume "stop_block cfg i ?r = (Continues, ?r\<lparr>door_closed_timer := time_grace i\<rparr>)"
    then show ?thesis by (rule that)
  qed
  have cb: "cancel_block i (?r\<lparr>door_closed_timer := t\<rparr>) = ?r\<lparr>door_closed_timer := 0\<rparr>"
    using assms(1,2) by (simp add: cancel_block_def resume_block_keeps)
  from assms(4) have "send_files_block i (?r\<lparr>door_closed_timer := 0\<rparr>) = (e, s')"
    by (simp add: tick_while_recording[OF assms(2)] sb cb)
  from send_files_block_keeps[OF this] assms(2) show ?thesis
    by (simp add: resume_block_keeps)
qed

text \<open>
  A pause requested while the sensor stays open starts the grace timer and the same pass
  cancels it again, so the grace period never elapses and the recording goes on.
\<close>

lemma pause_with_open_door_restarts_timer:
  assumes "door_opened i" and "pause_requested i" and "main_recording s"
    and "door_closed_timer s = 0" and "time_grace i \<noteq> 0" and "tick cfg i s = (e, s')"
  shows "door_closed_timer s' = 0 \<and> main_recording s' \<and> light s' = light s \<and>
         the_recorder s' = the_recorder s"
proof -
  let ?r = "resume_block i s"
  have sb: "stop_block cfg i ?r = (Continues, ?r\<lparr>door_closed_timer := time_grace i\<rparr>)"
    using assms(2,3,4) by (simp add: stop_block_def resume_block_keeps)
  have cb: "cancel_block i (?r\<lparr>door_closed_timer := time_grace i\<rparr>) = ?r\<lparr>door_closed_timer := 0\<rparr>"
    using assms(1,3,5) by (simp add: cancel_block_def resume_block_keeps)
  from assms(6) have "send_files_block i (?r\<lparr>door_closed_timer := 0\<rparr>) = (e, s')"
    by (simp add: tick_while_recording[OF assms(3)] sb cb)
  from send_files_block_keeps[OF this] assms(3) show ?thesis
    by (simp add: resume_block_keeps)
qed

lemma pause_with_open_door_never_stops:
  "main_recording s \<Longrightarrow> door_closed_timer s = 0 \<Longrightarrow>
   \<forall>i \<in> set passes. door_opened i \<and> pause_requested i \<Longrightarrow>
   ticks cfg passes s = (e, s') \<Longrightarrow>
   main_recording s' \<and> door_closed_timer s' = 0 \<and> light s' = light s \<and>
   the_recorder s' = the_recorder s"
proof (induction passes arbitrary: s)
  case Nil
  then show ?case by simp
next
  case (Cons i passes)
  obtain e1 s1 where t: "tick cfg i s = (e1, s1)" by (metis surj_pair)
  from Cons.prems(3) have o: "door_opened i" by simp
  have d: "\<not> pause_requested i \<or> door_closed_timer s = 0 \<or>
         \<not> time_grace i - door_closed_timer s > record_extra cfg"
    using Cons.prems(2) by simp
  from tick_cancels[OF o Cons.prems(1) d t]
  have k: "door_closed_timer s1 = 0" "main_recording s1" "light s1 = light s"
    "the_recorder s1 = the_recorder s" by simp_all
  show ?case
  proof (cases "e1 = Continues")
    case True
    with t Cons.prems(4) have r: "ticks cfg passes s1 = (e, s')" by simp
    have "\<forall>i \<in> set passes. door_opened i \<and> pause_requested i" using Cons.prems(3) by simp
    from Cons.IH[OF k(2) k(1) this r] k show ?thesis by simp
  next
    case False
    with t Cons.prems(4) have "s' = s1" by (cases e1) simp_all
    with k show ?thesis by simp
  qed
qed





lemmas tick_eval = tick_def resume_block_def start_block_def stop_block_def cancel_block_def
  send_files_block_def unsent_files_def known_dir_def Let_def


text \<open>
  A pause requested while the sensor stays open is the case that the statement above
  leaves out. The stop block starts the timer and the cancel block of the same pass clears
  it, on every pass, so the recording is never stopped however long the pause lasts,
  although the comments of the stop block (lines 238 and 240) and its log message say that
  a pause stops the recording after the grace duration.
\<close>

lemma pause_with_open_door_example:
  "main_recording recording_main \<and> door_closed_timer recording_main = 0 \<and>
   door_opened (pause_open 1005) \<and> pause_requested (pause_open 1005) \<and>
   ticks example_main_config [pause_open 1005, pause_open 1010, pause_open 1016, pause_open 2000]
      recording_main
     = (Continues, recording_main\<lparr>pause_requested_prev := True\<rparr>)"
  by (simp add: tick_eval pause_open_def door_closed_def recording_main_def example_main_config_def)


subsection \<open>Sending the files\<close>

lemma unsent_files_set: "set (unsent_files listed sent) = set listed - set sent"
  by (auto simp: unsent_files_def)

lemma unsent_files_head_least:
  assumes "unsent_files listed sent = f # rest"
  shows "\<forall>x \<in> set listed - set sent. f \<le> x"
proof -
  have "sorted (unsent_files listed sent)" by (simp add: unsent_files_def)
  with assms have "\<forall>x \<in> set rest. f \<le> x" by simp
  moreover have "set listed - set sent = insert f (set rest)"
    using unsent_files_set[of listed sent] assms by simp
  ultimately show ?thesis by auto
qed

lemma unsent_files_after:
  assumes "distinct listed" and "unsent_files listed sent = f # rest"
  shows "unsent_files listed (sent @ [f]) = rest"
proof -
  have d: "distinct (f # rest)"
    using assms by (metis distinct_filter distinct_sort unsent_files_def)
  have "unsent_files listed (sent @ [f])
          = sort (filter (\<lambda>x. x \<noteq> f) (filter (\<lambda>x. x \<notin> set sent) listed))"
    by (simp add: unsent_files_def conj_commute)
  also have "\<dots> = filter (\<lambda>x. x \<noteq> f) (unsent_files listed sent)"
    by (simp add: unsent_files_def filter_sort)
  also have "\<dots> = rest" using assms(2) d by (auto intro: filter_True)
  finally show ?thesis .
qed

lemma send_files_block_idle:
  assumes "output_dir s = Some dir" and "dir \<noteq> []" and "dir_files i dir = Some listed"
    and "main_recording s" and "length (unsent_files listed (files_sent s)) < 2"
  shows "send_files_block i s = (Continues, s)"
proof (cases "unsent_files listed (files_sent s)")
  case Nil
  with assms show ?thesis by (simp add: send_files_block_def)
next
  case (Cons f rest)
  with assms(5) have "rest = []" by simp
  with Cons assms show ?thesis by (simp add: send_files_block_def)
qed

lemma send_files_block_step:
  assumes "output_dir s = Some dir" and "dir \<noteq> []" and "dir_files i dir = Some listed"
    and "unsent_files listed (files_sent s) = f # rest"
    and "rest \<noteq> [] \<or> \<not> main_recording s"
    and "getsize i (path_join dir f) = Some sz"
  shows "send_files_block i s =
           (Continues,
            s\<lparr>files_sent := files_sent s @ [f],
              queue := (if sz > MINIMUM_FILE_SIZE then queue s @ [video_job dir f] else queue s),
              output_dir := (if rest = [] \<and> \<not> main_recording s then None else Some dir)\<rparr>)"
  using assms by (auto simp: send_files_block_def video_job_def Let_def)

lemma tick_quiet:
  assumes "\<not> main_recording s" and "quiet_pass i"
  shows "tick cfg i s = send_files_block i (resume_block i s)"
proof -
  let ?r = "resume_block i s"
  have m: "\<not> main_recording ?r" using assms(1) by (simp add: resume_block_keeps)
  have a: "start_block cfg i ?r = (Continues, ?r)"
    using assms(2) by (auto simp: start_block_def quiet_pass_def)
  have b: "stop_block cfg i ?r = (Continues, ?r)" using m by (simp add: stop_block_def)
  have c: "cancel_block i ?r = ?r" using m by (simp add: cancel_block_def)
  show ?thesis by (simp add: tick_def a b c)
qed

lemma ticks_send_remaining:
  "\<not> main_recording s \<Longrightarrow> output_dir s = Some dir \<Longrightarrow> dir \<noteq> [] \<Longrightarrow> distinct listed \<Longrightarrow>
   unsent_files listed (files_sent s) = us \<Longrightarrow> us \<noteq> [] \<Longrightarrow> length inputs = length us \<Longrightarrow>
   \<forall>i \<in> set inputs. quiet_pass i \<and> dir_files i dir = Some listed \<and>
       (\<forall>f \<in> set listed. getsize i (path_join dir f) = Some (size_of f)) \<Longrightarrow>
   \<exists>s'. ticks cfg inputs s = (Continues, s') \<and> \<not> main_recording s' \<and>
        files_sent s' = files_sent s @ us \<and>
        queue s' = queue s @ map (video_job dir) (filter (\<lambda>f. size_of f > MINIMUM_FILE_SIZE) us) \<and>
        output_dir s' = None"
proof (induction us arbitrary: s inputs)
  case Nil
  then show ?case by simp
next
  case (Cons f rest)
  from Cons.prems(7) obtain i "is" where inp: "inputs = i # is" "length is = length rest"
    by (cases inputs) auto
  let ?r = "resume_block i s"
  from Cons.prems(8) inp have i: "quiet_pass i" "dir_files i dir = Some listed"
    "\<forall>f \<in> set listed. getsize i (path_join dir f) = Some (size_of f)" by simp_all
  have fl: "f \<in> set listed"
    using unsent_files_set[of listed "files_sent s"] Cons.prems(5) by auto
  with i(3) have sz: "getsize i (path_join dir f) = Some (size_of f)" by simp
  have r: "output_dir ?r = Some dir" "unsent_files listed (files_sent ?r) = f # rest"
    "rest \<noteq> [] \<or> \<not> main_recording ?r"
    using Cons.prems(1,2,5) by (simp_all add: resume_block_keeps)
  let ?s1 = "?r\<lparr>files_sent := files_sent ?r @ [f],
              queue := (if size_of f > MINIMUM_FILE_SIZE then queue ?r @ [video_job dir f] else queue ?r),
              output_dir := (if rest = [] \<and> \<not> main_recording ?r then None else Some dir)\<rparr>"
  have t: "tick cfg i s = (Continues, ?s1)"
    using send_files_block_step[OF r(1) Cons.prems(3) i(2) r(2) r(3) sz]
    by (simp add: tick_quiet[OF Cons.prems(1) i(1)])
  show ?case
  proof (cases "rest = []")
    case True
    with inp have "is = []" by simp
    with t inp have "ticks cfg inputs s = (Continues, ?s1)" by simp
    with True Cons.prems(1) show ?thesis
      by (auto simp: resume_block_keeps)
  next
    case False
    have a1: "\<not> main_recording ?s1" using Cons.prems(1) by (simp add: resume_block_keeps)
    have a2: "output_dir ?s1 = Some dir" using False by simp
    have a5: "unsent_files listed (files_sent ?s1) = rest"
      using unsent_files_after[OF Cons.prems(4) r(2)] by simp
    have a8: "\<forall>i \<in> set is. quiet_pass i \<and> dir_files i dir = Some listed \<and>
       (\<forall>f \<in> set listed. getsize i (path_join dir f) = Some (size_of f))"
      using Cons.prems(8) inp by simp
    from Cons.IH[OF a1 a2 Cons.prems(3,4) a5 False inp(2) a8] obtain s' where
      s': "ticks cfg is ?s1 = (Continues, s')" "\<not> main_recording s'"
        "files_sent s' = files_sent ?s1 @ rest"
        "queue s' = queue ?s1 @ map (video_job dir) (filter (\<lambda>f. size_of f > MINIMUM_FILE_SIZE) rest)"
        "output_dir s' = None" by blast
    from t inp s'(1) have "ticks cfg inputs s = (Continues, s')" by simp
    with s' show ?thesis by (auto simp: resume_block_keeps)
  qed
qed


text \<open>
  What the file block does when there is a file to handle. While an output directory is
  known and the session is still recording, a pass leaves everything as it is when fewer
  than two unsent files exist, and otherwise handles exactly one file, the lexicographically
  earliest unsent one: the file is marked as sent, and it is queued if its size is greater
  than \<open>MINIMUM_FILE_SIZE\<close>; a smaller file is discarded. Once the recording has stopped, the
  unsent files are handled in the same way, one in each pass, in lexicographic order, so
  that all of them have been handled after as many passes as there were unsent files, and
  the pass that handles the last of them clears the output directory.
\<close>

lemma send_files_one_per_pass:
  assumes "output_dir s = Some dir" and "dir \<noteq> []" and "dir_files i dir = Some listed"
  shows "(main_recording s \<and> length (unsent_files listed (files_sent s)) < 2
            \<longrightarrow> send_files_block i s = (Continues, s)) \<and>
         (\<forall>f rest sz. unsent_files listed (files_sent s) = f # rest \<and>
              (rest \<noteq> [] \<or> \<not> main_recording s) \<and> getsize i (path_join dir f) = Some sz \<longrightarrow>
            (\<forall>x \<in> set listed - set (files_sent s). f \<le> x) \<and>
            send_files_block i s =
              (Continues,
               s\<lparr>files_sent := files_sent s @ [f],
                 queue := (if sz > MINIMUM_FILE_SIZE then queue s @ [video_job dir f] else queue s),
                 output_dir := (if rest = [] \<and> \<not> main_recording s then None else Some dir)\<rparr>)) \<and>
         (\<forall>inputs size_of. \<not> main_recording s \<and> distinct listed \<and>
              unsent_files listed (files_sent s) \<noteq> [] \<and>
              length inputs = length (unsent_files listed (files_sent s)) \<and>
              (\<forall>j \<in> set inputs. quiet_pass j \<and> dir_files j dir = Some listed \<and>
                  (\<forall>f \<in> set listed. getsize j (path_join dir f) = Some (size_of f))) \<longrightarrow>
            (\<exists>s'. ticks cfg inputs s = (Continues, s') \<and>
                files_sent s' = files_sent s @ unsent_files listed (files_sent s) \<and>
                queue s' = queue s @ map (video_job dir)
                  (filter (\<lambda>f. size_of f > MINIMUM_FILE_SIZE) (unsent_files listed (files_sent s))) \<and>
                output_dir s' = None))"
proof (intro conjI allI impI)
  assume "main_recording s \<and> length (unsent_files listed (files_sent s)) < 2"
  then show "send_files_block i s = (Continues, s)"
    using send_files_block_idle[OF assms] by simp
next
  fix f rest sz
  assume a: "unsent_files listed (files_sent s) = f # rest \<and>
              (rest \<noteq> [] \<or> \<not> main_recording s) \<and> getsize i (path_join dir f) = Some sz"
  then show "\<forall>x \<in> set listed - set (files_sent s). f \<le> x"
    using unsent_files_head_least by blast
  from a show "send_files_block i s =
              (Continues,
               s\<lparr>files_sent := files_sent s @ [f],
                 queue := (if sz > MINIMUM_FILE_SIZE then queue s @ [video_job dir f] else queue s),
                 output_dir := (if rest = [] \<and> \<not> main_recording s then None else Some dir)\<rparr>)"
    using send_files_block_step[OF assms, of f rest sz] by blast
next
  fix inputs size_of
  assume a: "\<not> main_recording s \<and> distinct listed \<and>
              unsent_files listed (files_sent s) \<noteq> [] \<and>
              length inputs = length (unsent_files listed (files_sent s)) \<and>
              (\<forall>j \<in> set inputs. quiet_pass j \<and> dir_files j dir = Some listed \<and>
                  (\<forall>f \<in> set listed. getsize j (path_join dir f) = Some (size_of f)))"
  then have "\<exists>s'. ticks cfg inputs s = (Continues, s') \<and> \<not> main_recording s' \<and>
        files_sent s' = files_sent s @ unsent_files listed (files_sent s) \<and>
        queue s' = queue s @ map (video_job dir)
          (filter (\<lambda>f. size_of f > MINIMUM_FILE_SIZE) (unsent_files listed (files_sent s))) \<and>
        output_dir s' = None"
    using ticks_send_remaining[OF _ assms(1,2) _ refl, of listed inputs size_of cfg] by blast
  then show "\<exists>s'. ticks cfg inputs s = (Continues, s') \<and>
                files_sent s' = files_sent s @ unsent_files listed (files_sent s) \<and>
                queue s' = queue s @ map (video_job dir)
                  (filter (\<lambda>f. size_of f > MINIMUM_FILE_SIZE) (unsent_files listed (files_sent s))) \<and>
                output_dir s' = None"
    by blast
qed

lemma example_unsent:
  "unsent_files [''b.mp4'', ''a.mp4''] [] = [''a.mp4'', ''b.mp4'']"
  "unsent_files [''b.mp4'', ''a.mp4''] [''a.mp4''] = [''b.mp4'']"
  unfolding unsent_files_def by code_simp+

lemma send_files_one_per_pass_example:
  "output_dir stopped_main = Some ''/out/a'' \<and> ''/out/a'' \<noteq> [] \<and>
   dir_files (files_listed 1020) ''/out/a'' = Some [''b.mp4'', ''a.mp4''] \<and>
   \<not> main_recording stopped_main \<and> distinct [''b.mp4'', ''a.mp4''] \<and>
   unsent_files [''b.mp4'', ''a.mp4''] (files_sent stopped_main) = [''a.mp4'', ''b.mp4''] \<and>
   quiet_pass (files_listed 1020) \<and> quiet_pass (files_listed 1021) \<and>
   dir_files (files_listed 1021) ''/out/a'' = Some [''b.mp4'', ''a.mp4''] \<and>
   getsize (files_listed 1020) (path_join ''/out/a'' ''a.mp4'') = Some (example_size_of ''a.mp4'') \<and>
   getsize (files_listed 1021) (path_join ''/out/a'' ''b.mp4'') = Some (example_size_of ''b.mp4'') \<and>
   (\<exists>s'. ticks example_main_config [files_listed 1020, files_listed 1021] stopped_main = (Continues, s') \<and>
        files_sent s' = [''a.mp4'', ''b.mp4''] \<and> queue s' = [''video_/out/a/a.mp4''] \<and>
        output_dir s' = None)"
proof -
  have h1: "output_dir stopped_main = Some ''/out/a''" and h2: "''/out/a'' \<noteq> []"
    and h3: "dir_files (files_listed 1020) ''/out/a'' = Some [''b.mp4'', ''a.mp4'']"
    by (simp_all add: stopped_main_def files_listed_def example_files_def)
  have h4: "\<not> main_recording stopped_main" and h5: "distinct [''b.mp4'', ''a.mp4'']"
    by (simp_all add: stopped_main_def)
  have h6: "unsent_files [''b.mp4'', ''a.mp4''] (files_sent stopped_main) = [''a.mp4'', ''b.mp4'']"
    by (simp add: stopped_main_def example_unsent)
  have h7: "\<forall>j \<in> set [files_listed 1020, files_listed 1021].
      quiet_pass j \<and> dir_files j ''/out/a'' = Some [''b.mp4'', ''a.mp4''] \<and>
      (\<forall>f \<in> set [''b.mp4'', ''a.mp4'']. getsize j (path_join ''/out/a'' f) = Some (example_size_of f))"
    by (simp add: files_listed_def door_closed_def quiet_pass_def example_files_def
          example_sizes_def example_size_of_def path_join_def)
  have big: "filter (\<lambda>f. example_size_of f > MINIMUM_FILE_SIZE) [''a.mp4'', ''b.mp4''] = [''a.mp4'']"
    by (simp add: example_size_of_def MINIMUM_FILE_SIZE_def)
  note run = send_files_one_per_pass[OF h1 h2 h3, of example_main_config,
      THEN conjunct2, THEN conjunct2, rule_format,
      of "[files_listed 1020, files_listed 1021]" example_size_of]
  have pre: "\<not> main_recording stopped_main \<and> distinct [''b.mp4'', ''a.mp4''] \<and>
      unsent_files [''b.mp4'', ''a.mp4''] (files_sent stopped_main) \<noteq> [] \<and>
      length [files_listed 1020, files_listed 1021]
        = length (unsent_files [''b.mp4'', ''a.mp4''] (files_sent stopped_main)) \<and>
      (\<forall>j \<in> set [files_listed 1020, files_listed 1021].
         quiet_pass j \<and> dir_files j ''/out/a'' = Some [''b.mp4'', ''a.mp4''] \<and>
         (\<forall>f \<in> set [''b.mp4'', ''a.mp4'']. getsize j (path_join ''/out/a'' f) = Some (example_size_of f)))"
    using h4 h5 h7 by (simp only: h6) simp
  from run[OF pre] obtain s' where
    t: "ticks example_main_config [files_listed 1020, files_listed 1021] stopped_main = (Continues, s')"
    and fs: "files_sent s' = files_sent stopped_main
               @ unsent_files [''b.mp4'', ''a.mp4''] (files_sent stopped_main)"
    and q: "queue s' = queue stopped_main @ map (video_job ''/out/a'')
           (filter (\<lambda>f. example_size_of f > MINIMUM_FILE_SIZE)
              (unsent_files [''b.mp4'', ''a.mp4''] (files_sent stopped_main)))"
    and od: "output_dir s' = None"
    by blast
  from fs have fs': "files_sent s' = [''a.mp4'', ''b.mp4'']"
    unfolding h6 by (simp add: stopped_main_def)
  from q have q': "queue s' = [''video_/out/a/a.mp4'']"
    unfolding h6 big by (simp add: stopped_main_def video_job_def path_join_def)
  from t fs' q' od
  have "\<exists>s'. ticks example_main_config [files_listed 1020, files_listed 1021] stopped_main = (Continues, s') \<and>
        files_sent s' = [''a.mp4'', ''b.mp4''] \<and> queue s' = [''video_/out/a/a.mp4''] \<and>
        output_dir s' = None"
    by blast
  moreover have "quiet_pass (files_listed 1020)" "quiet_pass (files_listed 1021)"
    "dir_files (files_listed 1021) ''/out/a'' = Some [''b.mp4'', ''a.mp4'']"
    "getsize (files_listed 1020) (path_join ''/out/a'' ''a.mp4'') = Some (example_size_of ''a.mp4'')"
    "getsize (files_listed 1021) (path_join ''/out/a'' ''b.mp4'') = Some (example_size_of ''b.mp4'')"
    using h7 by simp_all
  ultimately show ?thesis using h1 h2 h3 h4 h5 h6 by blast
qed

text \<open>
  The size rule at work: after the recording has stopped, a remaining file of 900 bytes is
  marked as sent and the output directory is cleared, but the file is not queued.
\<close>

lemma small_file_not_enqueued:
  "\<not> main_recording stopped_main \<and>
   unsent_files [''b.mp4'', ''a.mp4''] (files_sent stopped_main) = [''a.mp4'', ''b.mp4''] \<and>
   ticks example_main_config [files_listed 1020, files_listed 1021] stopped_main
     = (Continues,
        stopped_main\<lparr>files_sent := [''a.mp4'', ''b.mp4''], queue := [''video_/out/a/a.mp4''],
                      output_dir := None\<rparr>) \<and>
   ''video_/out/a/b.mp4'' \<notin> set (queue (snd (ticks example_main_config
        [files_listed 1020, files_listed 1021] stopped_main)))"
proof -
  have a: "\<not> main_recording stopped_main" by (simp add: stopped_main_def)
  have b: "unsent_files [''b.mp4'', ''a.mp4''] (files_sent stopped_main) = [''a.mp4'', ''b.mp4'']"
    by (simp add: stopped_main_def example_unsent)
  have c: "ticks example_main_config [files_listed 1020, files_listed 1021] stopped_main
     = (Continues,
        stopped_main\<lparr>files_sent := [''a.mp4'', ''b.mp4''], queue := [''video_/out/a/a.mp4''],
                      output_dir := None\<rparr>)"
    by (simp add: tick_def resume_block_def start_block_def stop_block_def cancel_block_def
          send_files_block_def Let_def files_listed_def door_closed_def stopped_main_def
          example_files_def example_sizes_def example_unsent path_join_def MINIMUM_FILE_SIZE_def)
  have d: "''video_/out/a/b.mp4'' \<notin> set (queue (snd (ticks example_main_config
        [files_listed 1020, files_listed 1021] stopped_main)))"
    unfolding c by simp
  from a b c d show ?thesis by blast
qed

lemma send_files_block_nothing_unsent:
  assumes "output_dir s = Some dir" and "dir_files i dir = Some listed"
    and "unsent_files listed (files_sent s) = []"
  shows "send_files_block i s = (Continues, s)"
  using assms by (simp add: send_files_block_def)

lemma ticks_nothing_unsent:
  "\<not> main_recording s \<Longrightarrow> output_dir s = Some dir \<Longrightarrow>
   \<forall>i \<in> set inputs. quiet_pass i \<and>
      (\<exists>listed. dir_files i dir = Some listed \<and> unsent_files listed (files_sent s) = []) \<Longrightarrow>
   \<exists>s'. ticks cfg inputs s = (Continues, s') \<and> \<not> main_recording s' \<and>
        output_dir s' = Some dir \<and> files_sent s' = files_sent s \<and> queue s' = queue s"
proof (induction inputs arbitrary: s)
  case Nil
  then show ?case by simp
next
  case (Cons i inputs)
  let ?r = "resume_block i s"
  from Cons.prems(3) obtain listed where i: "quiet_pass i" "dir_files i dir = Some listed"
    "unsent_files listed (files_sent s) = []" by auto
  have r: "\<not> main_recording ?r" "output_dir ?r = Some dir" "files_sent ?r = files_sent s"
    "queue ?r = queue s"
    using Cons.prems(1,2) by (simp_all add: resume_block_keeps)
  have u: "unsent_files listed (files_sent ?r) = []" using i(3) r(3) by simp
  have t: "tick cfg i s = (Continues, ?r)"
    using send_files_block_nothing_unsent[OF r(2) i(2) u]
    by (simp add: tick_quiet[OF Cons.prems(1) i(1)])
  have n: "\<forall>i \<in> set inputs. quiet_pass i \<and>
      (\<exists>listed. dir_files i dir = Some listed \<and> unsent_files listed (files_sent ?r) = [])"
    using Cons.prems(3) r(3) by simp
  from Cons.IH[OF r(1) r(2) n] obtain s' where
    s': "ticks cfg inputs ?r = (Continues, s')" "\<not> main_recording s'" "output_dir s' = Some dir"
      "files_sent s' = files_sent ?r" "queue s' = queue ?r" by blast
  from t s'(1) have "ticks cfg (i # inputs) s = (Continues, s')" by simp
  with s' r show ?case by auto
qed

text \<open>
  C5. The last part of the claim, ``when none remain the output directory reference is
  cleared'', does not hold of the code when no unsent file remains at the moment the
  recording stops. The assignment \<open>output_dir = None\<close> of line 292, with its log message
  ``No more files to send'', sits inside the branch \<open>len(files) != 0\<close> of line 277, so it is
  reached only in a pass that handles a file. Here a recording is stopped after the grace
  duration while its directory holds no file: the session is cleared, no unsent file
  remains, and on the later passes the directory stays known (and is listed again on
  every pass).
\<close>

theorem empty_directory_never_cleared:
  "ticks example_main_config [door_closed 1005, door_closed 1010, door_closed 1016] recording_main
     = (Continues,
        recording_main\<lparr>main_recording := False, light := False, recording_stopped_time := 1016,
          the_recorder := \<lparr>recording = False, attempts = 0, has_process = False,
             process_out_capture_enabled = False,
             rtrace = [Launch ''/out/a'', Terminate, WaitProcess, HardKill, HardKill, HardKill]\<rparr>\<rparr>) \<and>
   dir_files (door_closed 1020) ''/out/a'' = Some [] \<and>
   unsent_files [] (files_sent recording_main) = [] \<and>
   ticks example_main_config [door_closed 1020, door_closed 1021, door_closed 5000]
      (recording_main\<lparr>main_recording := False, light := False, recording_stopped_time := 1016,
          the_recorder := \<lparr>recording = False, attempts = 0, has_process = False,
             process_out_capture_enabled = False,
             rtrace = [Launch ''/out/a'', Terminate, WaitProcess, HardKill, HardKill, HardKill]\<rparr>\<rparr>)
     = (Continues,
        recording_main\<lparr>main_recording := False, light := False, recording_stopped_time := 1016,
          the_recorder := \<lparr>recording = False, attempts = 0, has_process = False,
             process_out_capture_enabled = False,
             rtrace = [Launch ''/out/a'', Terminate, WaitProcess, HardKill, HardKill, HardKill]\<rparr>\<rparr>) \<and>
   output_dir (snd (ticks example_main_config
       [door_closed 1005, door_closed 1010, door_closed 1016, door_closed 1020, door_closed 1021,
        door_closed 5000] recording_main)) = Some ''/out/a''"
proof -
  have a: "ticks example_main_config [door_closed 1005, door_closed 1010, door_closed 1016] recording_main
     = (Continues,
        recording_main\<lparr>main_recording := False, light := False, recording_stopped_time := 1016,
          the_recorder := \<lparr>recording = False, attempts = 0, has_process = False,
             process_out_capture_enabled = False,
             rtrace = [Launch ''/out/a'', Terminate, WaitProcess, HardKill, HardKill, HardKill]\<rparr>\<rparr>)"
    by (simp add: tick_eval door_closed_def recording_main_def example_main_config_def
          stop_def graceful_stop_def poll_def quiet_env_def recording_recorder_def eval_nat_numeral)
  have b: "dir_files (door_closed 1020) ''/out/a'' = Some []"
    "unsent_files [] (files_sent recording_main) = []"
    by (simp_all add: door_closed_def unsent_files_def)
  have c: "ticks example_main_config [door_closed 1020, door_closed 1021, door_closed 5000]
      (recording_main\<lparr>main_recording := False, light := False, recording_stopped_time := 1016,
          the_recorder := \<lparr>recording = False, attempts = 0, has_process = False,
             process_out_capture_enabled = False,
             rtrace = [Launch ''/out/a'', Terminate, WaitProcess, HardKill, HardKill, HardKill]\<rparr>\<rparr>)
     = (Continues,
        recording_main\<lparr>main_recording := False, light := False, recording_stopped_time := 1016,
          the_recorder := \<lparr>recording = False, attempts = 0, has_process = False,
             process_out_capture_enabled = False,
             rtrace = [Launch ''/out/a'', Terminate, WaitProcess, HardKill, HardKill, HardKill]\<rparr>\<rparr>)"
    by (simp add: tick_eval door_closed_def recording_main_def example_main_config_def)
  have d: "ticks example_main_config
       [door_closed 1005, door_closed 1010, door_closed 1016, door_closed 1020, door_closed 1021,
        door_closed 5000] recording_main
     = (Continues,
        recording_main\<lparr>main_recording := False, light := False, recording_stopped_time := 1016,
          the_recorder := \<lparr>recording = False, attempts = 0, has_process = False,
             process_out_capture_enabled = False,
             rtrace = [Launch ''/out/a'', Terminate, WaitProcess, HardKill, HardKill, HardKill]\<rparr>\<rparr>)"
    by (simp add: tick_eval door_closed_def recording_main_def example_main_config_def
          stop_def graceful_stop_def poll_def quiet_env_def recording_recorder_def eval_nat_numeral)
  have e: "output_dir (snd (ticks example_main_config
       [door_closed 1005, door_closed 1010, door_closed 1016, door_closed 1020, door_closed 1021,
        door_closed 5000] recording_main)) = Some ''/out/a''"
    unfolding d by (simp add: recording_main_def)
  from a b c e show ?thesis by blast
qed

end
